theory Spec2Isabelle
  imports Complex_Main
begin

section \<open>Python strings\<close>

text \<open>
  Strings of the agent are modelled as \<open>string\<close> (lists of 8-bit characters) standing for
  ASCII text: the replies, action lines and UI attributes the agent handles. Characters
  above code 127 are treated as ordinary characters that are neither whitespace, digits nor
  letters with a case.

  Python's \<open>str.strip()\<close>, \<open>str.isspace()\<close> and the regular-expression class \<open>\s\<close> agree
  on ASCII: codes 9 to 13, 28 to 31 and 32.
\<close>

definition py_isspace :: "char \<Rightarrow> bool" where
  "py_isspace c = (c \<in> set [CHR 0x09, CHR 0x0A, CHR 0x0B, CHR 0x0C, CHR 0x0D,
                              CHR 0x1C, CHR 0x1D, CHR 0x1E, CHR 0x1F, CHR '' ''])"

definition py_isdigit :: "char \<Rightarrow> bool" where
  "py_isdigit c = (c \<in> set ''0123456789'')"

definition newline :: char where
  "newline = CHR 0x0A"

text \<open>\<open>s.strip()\<close>: whitespace removed at both ends.\<close>

definition lstrip :: "string \<Rightarrow> string" where
  "lstrip s = dropWhile py_isspace s"

definition rstrip :: "string \<Rightarrow> string" where
  "rstrip s = rev (dropWhile py_isspace (rev s))"

definition strip :: "string \<Rightarrow> string" where
  "strip s = rstrip (lstrip s)"

text \<open>\<open>s.split('\n')\<close>: the pieces between newlines; always at least one piece.\<close>

fun split_lines :: "string \<Rightarrow> string list" where
  "split_lines [] = [[]]"
| "split_lines (c # cs) =
     (if c = newline then [] # split_lines cs
      else (case split_lines cs of
              [] \<Rightarrow> [[c]]
            | l # ls \<Rightarrow> (c # l) # ls))"

text \<open>\<open>s.upper()\<close> and \<open>s.lower()\<close> on ASCII letters.\<close>

definition upper_char :: "char \<Rightarrow> char" where
  "upper_char c =
     (case map_of (zip ''abcdefghijklmnopqrstuvwxyz'' ''ABCDEFGHIJKLMNOPQRSTUVWXYZ'') c of
        Some u \<Rightarrow> u | None \<Rightarrow> c)"

definition lower_char :: "char \<Rightarrow> char" where
  "lower_char c =
     (case map_of (zip ''ABCDEFGHIJKLMNOPQRSTUVWXYZ'' ''abcdefghijklmnopqrstuvwxyz'') c of
        Some l \<Rightarrow> l | None \<Rightarrow> c)"

definition upper :: "string \<Rightarrow> string" where
  "upper s = map upper_char s"

definition lower :: "string \<Rightarrow> string" where
  "lower s = map lower_char s"

text \<open>\<open>s.startswith(p)\<close> and the substring test \<open>sub in s\<close>.\<close>

fun startswith :: "string \<Rightarrow> string \<Rightarrow> bool" where
  "startswith s [] = True"
| "startswith [] (p # ps) = False"
| "startswith (c # cs) (p # ps) = (c = p \<and> startswith cs ps)"

fun contains :: "string \<Rightarrow> string \<Rightarrow> bool" where
  "contains sub [] = (sub = [])"
| "contains sub (c # cs) = (startswith (c # cs) sub \<or> contains sub cs)"

text \<open>\<open>any(k in s for k in ks)\<close>.\<close>

definition contains_any :: "string list \<Rightarrow> string \<Rightarrow> bool" where
  "contains_any ks s = list_ex (\<lambda>k. contains k s) ks"

section \<open>TaskExecutionState (core/task\_execution\_state.py)\<close>

record task_execution_state =
  active_task_description :: string
  current_step_number :: nat
  maximum_allowed_steps :: int
  search_initiated :: bool
  query_entered :: bool
  screen_hash_history :: "string list"

definition initialize_new_task :: "string \<Rightarrow> task_execution_state \<Rightarrow> task_execution_state" where
  "initialize_new_task task_description st =
     st\<lparr>active_task_description := task_description,
        current_step_number := 0,
        search_initiated := False,
        query_entered := False,
        screen_hash_history := []\<rparr>"

definition advance_step_counter :: "task_execution_state \<Rightarrow> task_execution_state" where
  "advance_step_counter st = st\<lparr>current_step_number := current_step_number st + 1\<rparr>"

definition has_reached_step_limit :: "task_execution_state \<Rightarrow> bool" where
  "has_reached_step_limit st = (int (current_step_number st) \<ge> maximum_allowed_steps st)"

text \<open>The slice \<open>xs[-n:]\<close> for a positive constant \<open>n\<close>: the last \<open>n\<close> entries, or all of them.\<close>

definition last_n :: "nat \<Rightarrow> 'a list \<Rightarrow> 'a list" where
  "last_n n xs = drop (length xs - n) xs"

definition record_screen_hash :: "string \<Rightarrow> task_execution_state \<Rightarrow> task_execution_state" where
  "record_screen_hash screen_hash st =
     st\<lparr>screen_hash_history := last_n 5 (screen_hash_history st @ [screen_hash])\<rparr>"

definition detect_screen_loop :: "string \<Rightarrow> task_execution_state \<Rightarrow> bool" where
  "detect_screen_loop current_screen_hash st =
     (current_screen_hash \<in> set (last_n 3 (screen_hash_history st)))"

definition search_keywords :: "string list" where
  "search_keywords = [''search'', ''input'', ''field'', ''box'', ''bar'']"

definition update_task_progress :: "string \<Rightarrow> task_execution_state \<Rightarrow> task_execution_state" where
  "update_task_progress executed_action st =
     (if contains ''TAP'' executed_action
         \<and> contains_any search_keywords (lower executed_action)
      then st\<lparr>search_initiated := True\<rparr>
      else if contains ''TYPE'' executed_action
      then st\<lparr>query_entered := True\<rparr>
      else st)"

text \<open>
  The phase of the progress machine, read off the two flags: the query flag gives
  QueryEntered, otherwise the search flag gives SearchStarted.
\<close>

datatype phase = SearchPending | SearchStarted | QueryEntered

fun phase_rank :: "phase \<Rightarrow> nat" where
  "phase_rank SearchPending = 0"
| "phase_rank SearchStarted = 1"
| "phase_rank QueryEntered = 2"

definition phase_of :: "task_execution_state \<Rightarrow> phase" where
  "phase_of st =
     (if query_entered st then QueryEntered
      else if search_initiated st then SearchStarted
      else SearchPending)"

text \<open>The progress updates of a whole sequence of executed actions, in order.\<close>

definition update_all :: "string list \<Rightarrow> task_execution_state \<Rightarrow> task_execution_state" where
  "update_all actions st = foldl (\<lambda>s a. update_task_progress a s) st actions"

section \<open>Regular expressions of the agent\<close>

text \<open>
  \<open>re.search(p, s)\<close> tries the pattern at every start position of \<open>s\<close>, from the left, and
  returns the first match. Each pattern of the agent is written as a matcher anchored at
  the start of its argument, and \<open>re_search\<close> moves it along the string.
\<close>

fun re_search :: "(string \<Rightarrow> 'a option) \<Rightarrow> string \<Rightarrow> 'a option" where
  "re_search m [] = m []"
| "re_search m (c # cs) =
     (case m (c # cs) of
        Some g \<Rightarrow> Some g
      | None \<Rightarrow> re_search m cs)"

text \<open>A literal prefix: the rest of the string after it.\<close>

fun after_prefix :: "string \<Rightarrow> string \<Rightarrow> string option" where
  "after_prefix [] s = Some s"
| "after_prefix (p # ps) [] = None"
| "after_prefix (p # ps) (c # cs) = (if p = c then after_prefix ps cs else None)"

text \<open>
  \<open>TAP\s*\((\d+),\s*(\d+)\)\<close>, anchored; the result is the two groups. The greedy
  \<open>\s*\<close> and \<open>\d+\<close> are each followed by a literal character outside their own class,
  so the longest run is the only run that can match.
\<close>

definition match_tap_at :: "string \<Rightarrow> (string \<times> string) option" where
  "match_tap_at s =
     (case after_prefix ''TAP'' s of
        None \<Rightarrow> None
      | Some r1 \<Rightarrow>
          (case dropWhile py_isspace r1 of
             [] \<Rightarrow> None
           | c1 # r2 \<Rightarrow>
               if c1 \<noteq> CHR ''('' \<or> takeWhile py_isdigit r2 = [] then None
               else
                 (case dropWhile py_isdigit r2 of
                    [] \<Rightarrow> None
                  | c2 # r3 \<Rightarrow>
                      if c2 \<noteq> CHR '','' \<or> takeWhile py_isdigit (dropWhile py_isspace r3) = []
                      then None
                      else
                        (case dropWhile py_isdigit (dropWhile py_isspace r3) of
                           [] \<Rightarrow> None
                         | c3 # r4 \<Rightarrow>
                             if c3 = CHR '')''
                             then Some (takeWhile py_isdigit r2,
                                        takeWhile py_isdigit (dropWhile py_isspace r3))
                             else None))))"

definition search_tap :: "string \<Rightarrow> (string \<times> string) option" where
  "search_tap s = re_search match_tap_at s"

definition is_quote :: "char \<Rightarrow> bool" where
  "is_quote c = (c = CHR 0x27 \<or> c = CHR 0x22)"

text \<open>\<open>TYPE\s*['\"]\<close>, anchored: only whether it matches is used.\<close>

definition match_type_open_at :: "string \<Rightarrow> unit option" where
  "match_type_open_at s =
     (case after_prefix ''TYPE'' s of
        None \<Rightarrow> None
      | Some r1 \<Rightarrow>
          (case dropWhile py_isspace r1 of
             [] \<Rightarrow> None
           | c # r2 \<Rightarrow> if is_quote c then Some () else None))"

definition search_type_open :: "string \<Rightarrow> bool" where
  "search_type_open s = (re_search match_type_open_at s \<noteq> None)"

text \<open>
  \<open>TYPE\s*['\"]([^'\"]+)['\"]\<close>, anchored; the result is the group. The group is the
  longest run of characters that are not quotes, and a quote has to follow it.
\<close>

definition match_type_quoted_at :: "string \<Rightarrow> string option" where
  "match_type_quoted_at s =
     (case after_prefix ''TYPE'' s of
        None \<Rightarrow> None
      | Some r1 \<Rightarrow>
          (case dropWhile py_isspace r1 of
             [] \<Rightarrow> None
           | c # r2 \<Rightarrow>
               if \<not> is_quote c \<or> takeWhile (\<lambda>x. \<not> is_quote x) r2 = []
                  \<or> dropWhile (\<lambda>x. \<not> is_quote x) r2 = []
               then None
               else Some (takeWhile (\<lambda>x. \<not> is_quote x) r2)))"

definition search_type_quoted :: "string \<Rightarrow> string option" where
  "search_type_quoted s = re_search match_type_quoted_at s"

text \<open>
  \<open>TASK_COMPLETE:\s*(.+)\<close>, anchored; the result is the group. The dot matches every
  character but the newline. When a character that is not whitespace follows the
  whitespace run, the group starts there and runs to the end of the line. When the string
  ends with the whitespace run, the matcher backtracks into the run: the group is the last
  character of the run that is not a newline, if there is one.
\<close>

definition match_completion_at :: "string \<Rightarrow> string option" where
  "match_completion_at s =
     (case after_prefix ''TASK_COMPLETE:'' s of
        None \<Rightarrow> None
      | Some r1 \<Rightarrow>
          (case dropWhile py_isspace r1 of
             c # r2 \<Rightarrow> Some (takeWhile (\<lambda>x. x \<noteq> newline) (c # r2))
           | [] \<Rightarrow>
               (case dropWhile (\<lambda>x. x = newline) (rev (takeWhile py_isspace r1)) of
                  [] \<Rightarrow> None
                | w # ws \<Rightarrow> Some [w])))"

definition search_completion :: "string \<Rightarrow> string option" where
  "search_completion s = re_search match_completion_at s"

section \<open>Python integers and floats\<close>

text \<open>\<open>str(n)\<close> and \<open>int(s)\<close> for decimal digit strings.\<close>

definition digit_char :: "nat \<Rightarrow> char" where
  "digit_char d = ''0123456789'' ! d"

fun str_nat :: "nat \<Rightarrow> string" where
  "str_nat n = (if n < 10 then [digit_char n] else str_nat (n div 10) @ [digit_char (n mod 10)])"

declare str_nat.simps [simp del]

definition str_int :: "int \<Rightarrow> string" where
  "str_int i = (if i < 0 then CHR ''-'' # str_nat (nat (- i)) else str_nat (nat i))"

definition digit_val :: "char \<Rightarrow> nat" where
  "digit_val c = (case map_of (zip ''0123456789'' [0 ..< 10]) c of Some d \<Rightarrow> d | None \<Rightarrow> 0)"

definition nat_of_digits :: "string \<Rightarrow> nat" where
  "nat_of_digits ds = foldl (\<lambda>acc c. 10 * acc + digit_val c) 0 ds"

definition int_of_digits :: "string \<Rightarrow> int" where
  "int_of_digits ds = int (nat_of_digits ds)"

text \<open>
  A Python float is an IEEE 754 double. A finite double is kept as a pair of integers
  \<open>Finite m e\<close> with the value \<open>m * 2 ^ e\<close>; the signs of zero and of infinity are not
  kept, because \<open>int()\<close> does not look at them. \<open>round_to_double m e\<close> is the double
  nearest to \<open>m * 2 ^ e\<close> (ties to even): at most 53 significant bits, exponent at least
  \<open>-1074\<close>, infinity from \<open>2 ^ 1024\<close> on.
\<close>

datatype pyfloat = Finite int int | Infinity | NaN

datatype py_error = OverflowError | ValueError

fun bit_length :: "nat \<Rightarrow> nat" where
  "bit_length n = (if n = 0 then 0 else Suc (bit_length (n div 2)))"

declare bit_length.simps [simp del]

definition round_half_even :: "nat \<Rightarrow> nat \<Rightarrow> nat" where
  "round_half_even a s =
     (let q = a div 2 ^ s; r = a mod 2 ^ s; h = 2 ^ (s - 1)
      in if r < h then q
         else if h < r then q + 1
         else if even q then q else q + 1)"

definition round_to_double :: "int \<Rightarrow> int \<Rightarrow> pyfloat" where
  "round_to_double m e =
     (let a = nat \<bar>m\<bar>;
          shift = max (int (bit_length a) - 53) (- 1074 - e);
          a' = (if shift \<le> 0 then a else round_half_even a (nat shift));
          e' = (if shift \<le> 0 then e else e + shift)
      in if int (bit_length a') + e' > 1024 then Infinity
         else Finite (sgn m * int a') e')"

text \<open>The conversion of an int operand of \<open>*\<close> to float: too large an int raises.\<close>

definition float_of_int :: "int \<Rightarrow> py_error + pyfloat" where
  "float_of_int x =
     (case round_to_double x 0 of
        Finite m e \<Rightarrow> Inr (Finite m e)
      | Infinity \<Rightarrow> Inl OverflowError
      | NaN \<Rightarrow> Inl OverflowError)"

fun fmul :: "pyfloat \<Rightarrow> pyfloat \<Rightarrow> pyfloat" where
  "fmul (Finite m1 e1) (Finite m2 e2) = round_to_double (m1 * m2) (e1 + e2)"
| "fmul NaN y = NaN"
| "fmul x NaN = NaN"
| "fmul Infinity (Finite m e) = (if m = 0 then NaN else Infinity)"
| "fmul (Finite m e) Infinity = (if m = 0 then NaN else Infinity)"
| "fmul Infinity Infinity = Infinity"

text \<open>\<open>int(f)\<close>: truncation toward zero; infinity and NaN raise.\<close>

definition trunc_dyadic :: "int \<Rightarrow> int \<Rightarrow> int" where
  "trunc_dyadic m e =
     (if 0 \<le> e then m * 2 ^ nat e
      else sgn m * (\<bar>m\<bar> div 2 ^ nat (- e)))"

fun py_int :: "pyfloat \<Rightarrow> py_error + int" where
  "py_int (Finite m e) = Inr (trunc_dyadic m e)"
| "py_int Infinity = Inl OverflowError"
| "py_int NaN = Inl ValueError"

text \<open>\<open>int(original * scale_factor)\<close> for an int \<open>original\<close> and a float factor.\<close>

definition scale_coordinate :: "int \<Rightarrow> pyfloat \<Rightarrow> py_error + int" where
  "scale_coordinate original factor =
     (case float_of_int original of
        Inl err \<Rightarrow> Inl err
      | Inr f \<Rightarrow> py_int (fmul f factor))"

text \<open>The real number a finite double stands for, and the float \<open>1.0\<close>.\<close>

definition valof :: "int \<Rightarrow> int \<Rightarrow> real" where
  "valof m e = (if 0 \<le> e then of_int m * 2 ^ nat e else of_int m / 2 ^ nat (- e))"

definition is_finite :: "pyfloat \<Rightarrow> bool" where
  "is_finite f = (case f of Finite m e \<Rightarrow> True | _ \<Rightarrow> False)"

definition float_value :: "pyfloat \<Rightarrow> real" where
  "float_value f = (case f of Finite m e \<Rightarrow> valof m e | _ \<Rightarrow> 0)"

definition float_one :: pyfloat where
  "float_one = Finite 1 0"

section \<open>QwenVisionAgent.extract\_action\_from\_response (core/qwen\_vision\_agent.py)\<close>

text \<open>\<open>line.split('#', 1)[1].strip() if '#' in line else "scaled coordinates"\<close>.\<close>

definition tap_comment :: "string \<Rightarrow> string" where
  "tap_comment line =
     (if CHR ''#'' \<in> set line
      then strip (tl (dropWhile (\<lambda>c. c \<noteq> CHR ''#'') line))
      else ''scaled coordinates'')"

text \<open>The f-string \<open>TAP (x,y) # comment\<close>.\<close>

definition format_tap :: "int \<Rightarrow> int \<Rightarrow> string \<Rightarrow> string" where
  "format_tap x y comment_text =
     ''TAP ('' @ str_int x @ '','' @ str_int y @ '') # '' @ comment_text"

text \<open>The scaling of the two groups, in the order the source evaluates them.\<close>

definition scaled_tap :: "string \<times> string \<Rightarrow> pyfloat \<Rightarrow> pyfloat \<Rightarrow> string \<Rightarrow> py_error + string" where
  "scaled_tap g width_scale height_scale comment_text =
     (case scale_coordinate (int_of_digits (fst g)) width_scale of
        Inl err \<Rightarrow> Inl err
      | Inr scaled_x \<Rightarrow>
          (case scale_coordinate (int_of_digits (snd g)) height_scale of
             Inl err \<Rightarrow> Inl err
           | Inr scaled_y \<Rightarrow> Inr (format_tap scaled_x scaled_y comment_text)))"

definition code_fence :: string where
  "code_fence = [CHR 0x60, CHR 0x60, CHR 0x60]"

definition skipped_line :: "string \<Rightarrow> bool" where
  "skipped_line line = (line = [] \<or> startswith line ''#'' \<or> startswith line code_fence)"

text \<open>
  The loop over the lines: \<open>None\<close> when the loop ends without a return, otherwise the
  value returned or the exception raised.
\<close>

fun scan_lines :: "string list \<Rightarrow> pyfloat \<Rightarrow> pyfloat \<Rightarrow> (py_error + string) option" where
  "scan_lines [] width_scale height_scale = None"
| "scan_lines (l # ls) width_scale height_scale =
     (let line = strip l in
      if skipped_line line then scan_lines ls width_scale height_scale
      else
        (case search_tap line of
           Some g \<Rightarrow> Some (scaled_tap g width_scale height_scale (tap_comment line))
         | None \<Rightarrow>
             if search_type_open line then Some (Inr line)
             else if contains ''SCROLL'' (upper line) then Some (Inr line)
             else if contains ''TASK_COMPLETE'' (upper line) then Some (Inr line)
             else scan_lines ls width_scale height_scale))"

text \<open>The fallback over the whole stripped reply.\<close>

definition parse_full_response :: "string \<Rightarrow> pyfloat \<Rightarrow> pyfloat \<Rightarrow> py_error + string option" where
  "parse_full_response full_response_text width_scale height_scale =
     (case search_tap full_response_text of
        Some g \<Rightarrow>
          (case scaled_tap g width_scale height_scale ''extracted and scaled'' of
             Inl err \<Rightarrow> Inl err
           | Inr a \<Rightarrow> Inr (Some a))
      | None \<Rightarrow>
          (case search_type_quoted full_response_text of
             Some t \<Rightarrow> Inr (Some (''TYPE '' @ [CHR 0x27] @ t @ [CHR 0x27] @ '' # extracted action''))
           | None \<Rightarrow>
               if contains ''SCROLL'' (upper full_response_text)
               then Inr (Some ''SCROLL down # extracted action'')
               else if contains ''TASK_COMPLETE'' (upper full_response_text)
               then Inr (Some ''TASK_COMPLETE: extracted from response'')
               else Inr None))"

definition extract_action_from_response ::
  "string \<Rightarrow> pyfloat \<Rightarrow> pyfloat \<Rightarrow> py_error + string option" where
  "extract_action_from_response model_response width_scale height_scale =
     (case scan_lines (split_lines (strip model_response)) width_scale height_scale of
        Some (Inl err) \<Rightarrow> Inl err
      | Some (Inr a) \<Rightarrow> Inr (Some a)
      | None \<Rightarrow> parse_full_response (strip model_response) width_scale height_scale)"

section \<open>ActionCoordinator (core/action\_coordinator.py)\<close>

datatype direction = Up | Down

text \<open>The calls made on the Android controller.\<close>

datatype device_command =
    PerformTap int int
  | PerformTextInput string
  | PerformScroll direction

text \<open>\<open>max_action_repetitions\<close> is set to 2 by the constructor and never assigned again.\<close>

definition max_action_repetitions :: nat where
  "max_action_repetitions = 2"

definition tap_identity :: "string \<times> string \<Rightarrow> string" where
  "tap_identity g = ''TAP('' @ fst g @ '','' @ snd g @ '')''"

definition is_action_repeating :: "string \<Rightarrow> string list \<Rightarrow> bool" where
  "is_action_repeating action_command history =
     (case search_tap action_command of
        Some g \<Rightarrow> count_list (last_n 4 history) (tap_identity g) \<ge> max_action_repetitions
      | None \<Rightarrow> False)"

definition action_pattern_line :: "string \<Rightarrow> bool" where
  "action_pattern_line line =
     (search_tap line \<noteq> None \<or> search_type_open line
      \<or> contains ''SCROLL'' (upper line) \<or> contains ''TASK_COMPLETE'' (upper line))"

text \<open>The loop that picks the primary action line: the first stripped line with a pattern.\<close>

fun select_action_line :: "string list \<Rightarrow> string option" where
  "select_action_line [] = None"
| "select_action_line (l # ls) =
     (if action_pattern_line (strip l) then Some (strip l) else select_action_line ls)"

definition cleaned_action :: "string \<Rightarrow> string" where
  "cleaned_action action_command =
     (case select_action_line (split_lines (strip action_command)) of
        Some line \<Rightarrow> line
      | None \<Rightarrow> strip action_command)"

text \<open>
  \<open>execute_parsed_action\<close>: the value returned, the controller calls made, and the
  history of executed actions afterwards.
\<close>

definition execute_parsed_action ::
  "string \<Rightarrow> string list \<Rightarrow> bool \<times> device_command list \<times> string list" where
  "execute_parsed_action action_command history =
     (let cleaned = cleaned_action action_command in
      case search_tap cleaned of
        Some g \<Rightarrow>
          if is_action_repeating cleaned history
          then (False, [PerformScroll Down], history)
          else (False, [PerformTap (int_of_digits (fst g)) (int_of_digits (snd g))],
                last_n 10 (history @ [tap_identity g]))
      | None \<Rightarrow>
          (case search_type_quoted cleaned of
             Some input_text \<Rightarrow> (False, [PerformTextInput input_text], history)
           | None \<Rightarrow>
               if contains ''SCROLL'' (upper cleaned)
               then (False,
                     [PerformScroll (if contains ''up'' (lower cleaned) then Up else Down)],
                     history)
               else if contains ''TASK_COMPLETE'' (upper cleaned)
               then (True, [], history)
               else (False, [], history)))"

section \<open>UIElementParser (core/ui\_element\_parser.py)\<close>

text \<open>
  An element of the parsed UI hierarchy: the dictionary built by
  \<open>parse_ui_hierarchy\<close>, with the key \<open>search_relevance_score\<close> that
  \<open>identify_search_elements\<close> adds.
\<close>

record ui_element =
  center_x :: int
  center_y :: int
  display_text :: string
  content_description :: string
  resource_id :: string
  element_class :: string
  is_clickable :: bool
  is_scrollable :: bool
  bounds_string :: string
  element_width :: int
  element_height :: int
  search_relevance_score :: "int option"

definition combined_text :: "ui_element \<Rightarrow> string" where
  "combined_text element =
     lower (display_text element) @ '' '' @ lower (content_description element) @ '' ''
       @ lower (resource_id element)"

text \<open>The score of one element: the five additions of the loop body, in order.\<close>

definition relevance_score :: "ui_element \<Rightarrow> int" where
  "relevance_score element =
     (let s0 = 0;
          s1 = (if contains_any [''search'', ''find''] (combined_text element)
                then s0 + 5 else s0);
          s2 = (if contains ''edittext'' (lower (element_class element)) then s1 + 4 else s1);
          s3 = (if contains_any [''search'', ''query'', ''input''] (lower (resource_id element))
                then s2 + 3 else s2);
          s4 = (if contains_any [''search'', ''magnify'', ''glass''] (combined_text element)
                then s3 + 2 else s3);
          s5 = (if element_width element > 200 \<and> element_height element > 30
                then s4 + 1 else s4)
      in s5)"

text \<open>The loop that collects the candidates, each with its score stored.\<close>

fun collect_candidates :: "ui_element list \<Rightarrow> ui_element list" where
  "collect_candidates [] = []"
| "collect_candidates (element # rest) =
     (if relevance_score element > 0
      then element\<lparr>search_relevance_score := Some (relevance_score element)\<rparr>
             # collect_candidates rest
      else collect_candidates rest)"

text \<open>
  \<open>candidates.sort(key=..., reverse=True)\<close>: Python's sort is stable, and with
  \<open>reverse=True\<close> elements with equal keys still keep their original order; this is the
  stable ascending sort on the negated key.
\<close>

definition stored_score :: "ui_element \<Rightarrow> int" where
  "stored_score element = (case search_relevance_score element of Some s \<Rightarrow> s | None \<Rightarrow> 0)"

definition sort_descending :: "ui_element list \<Rightarrow> ui_element list" where
  "sort_descending candidates = sort_key (\<lambda>x. - stored_score x) candidates"

definition identify_search_elements :: "ui_element list \<Rightarrow> ui_element list" where
  "identify_search_elements element_list = take 5 (sort_descending (collect_candidates element_list))"

definition get_clickable_elements :: "ui_element list \<Rightarrow> ui_element list" where
  "get_clickable_elements element_list =
     filter (\<lambda>element. is_clickable element \<and> element_width element > 100) element_list"

text \<open>\<open>a or b\<close> on strings: the first one that is not empty.\<close>

definition str_or :: "string \<Rightarrow> string \<Rightarrow> string" where
  "str_or a b = (if a \<noteq> [] then a else b)"

definition generate_fallback_action :: "ui_element list \<Rightarrow> nat \<Rightarrow> string option" where
  "generate_fallback_action element_list step_number =
     (if element_list = [] then None
      else
        (let clickable_elements = get_clickable_elements element_list in
         if clickable_elements \<noteq> []
         then
           (let selected_element = clickable_elements ! (step_number mod length clickable_elements);
                element_description =
                  str_or (display_text selected_element)
                    (str_or (content_description selected_element) ''interactive element'')
            in Some (''TAP ('' @ str_int (center_x selected_element) @ '',''
                       @ str_int (center_y selected_element) @ '') # ''
                       @ take 30 element_description))
         else None))"

section \<open>AppUtilities (core/app\_utilities.py)\<close>

definition get_predefined_fallback_actions :: "string list" where
  "get_predefined_fallback_actions =
     [''TAP (540,150)'', ''SCROLL down'', ''TAP (100,300)'', ''TAP (540,400)'']"

definition extract_app_identifier :: "string \<Rightarrow> string" where
  "extract_app_identifier task_instruction =
     (case filter (\<lambda>app_keyword. contains app_keyword (lower task_instruction))
             [''flipkart'', ''amazon'', ''blinkit'', ''zomato'', ''ola''] of
        [] \<Rightarrow> ''unknown''
      | app_keyword # _ \<Rightarrow> app_keyword)"

section \<open>IntelligentMobileAgent (intelligent\_mobile\_agent.py)\<close>

text \<open>
  What the collaborators answer in one step of the loop: whether the screenshot and the
  UI hierarchy were captured, the hash of the screenshot, the reply of the vision model
  with its two scale factors, and the elements parsed from the UI hierarchy.
\<close>

record observation =
  screenshot_captured :: bool
  ui_hierarchy_captured :: bool
  screen_hash :: string
  qwen_response :: "string option"
  width_scale_factor :: pyfloat
  height_scale_factor :: pyfloat
  parsed_ui_elements :: "ui_element list"

record agent_state =
  execution_state :: task_execution_state
  executed_actions_history :: "string list"
  device_log :: "device_command list"

text \<open>
  How one pass through the loop body ends: \<open>Stalled\<close> is the \<open>continue\<close> of the screen
  loop check; \<open>Executed a c\<close> is a pass that ran to the end of the body with the action
  \<open>a\<close> and the value \<open>c\<close> of \<open>task_completion_achieved\<close>; \<open>Completed a r\<close> is the
  \<open>break\<close> with the final result \<open>r\<close>.
\<close>

datatype step_outcome =
    Stalled
  | Executed string bool
  | Completed string string

text \<open>Python truthiness of an optional string: neither \<open>None\<close> nor empty.\<close>

definition truthy :: "string option \<Rightarrow> bool" where
  "truthy a = (case a of None \<Rightarrow> False | Some s \<Rightarrow> s \<noteq> [])"

text \<open>The vision tier: the action, and the execution state after the progress update.\<close>

definition vision_tier ::
  "observation \<Rightarrow> task_execution_state \<Rightarrow> py_error + (string option \<times> task_execution_state)" where
  "vision_tier obs es =
     (case qwen_response obs of
        None \<Rightarrow> Inr (None, es)
      | Some response \<Rightarrow>
          if screenshot_captured obs \<and> response \<noteq> []
          then
            (case extract_action_from_response response
                    (width_scale_factor obs) (height_scale_factor obs) of
               Inl err \<Rightarrow> Inl err
             | Inr None \<Rightarrow> Inr (None, es)
             | Inr (Some action) \<Rightarrow>
                 if action \<noteq> [] then Inr (Some action, update_task_progress action es)
                 else Inr (Some action, es))
          else Inr (None, es))"

text \<open>The UI hierarchy tier, entered when the vision tier gave no action.\<close>

definition search_tap_action :: "ui_element \<Rightarrow> string" where
  "search_tap_action best =
     ''TAP ('' @ str_int (center_x best) @ '','' @ str_int (center_y best) @ '') # Search: ''
       @ str_or (display_text best) (content_description best)"

definition ui_tier ::
  "observation \<Rightarrow> string option \<Rightarrow> task_execution_state \<Rightarrow> string option \<times> task_execution_state" where
  "ui_tier obs action es =
     (if \<not> truthy action \<and> ui_hierarchy_captured obs
      then
        (let candidates = identify_search_elements (parsed_ui_elements obs);
             found = (\<not> search_initiated es \<and> candidates \<noteq> []);
             action1 = (if found then Some (search_tap_action (hd candidates)) else action);
             es1 = (if found then es\<lparr>search_initiated := True\<rparr> else es)
         in if \<not> truthy action1
            then (generate_fallback_action (parsed_ui_elements obs) (current_step_number es1), es1)
            else (action1, es1))
      else (action, es))"

text \<open>The predefined fallback tier.\<close>

definition predefined_fallback :: "task_execution_state \<Rightarrow> string" where
  "predefined_fallback es =
     get_predefined_fallback_actions
       ! (current_step_number es mod length get_predefined_fallback_actions)"

definition fallback_tier :: "string option \<Rightarrow> task_execution_state \<Rightarrow> string" where
  "fallback_tier action es =
     (case action of
        None \<Rightarrow> predefined_fallback es
      | Some a \<Rightarrow> if a = [] then predefined_fallback es else a)"

definition completion_result :: "string \<Rightarrow> string" where
  "completion_result action =
     (case search_completion action of
        Some message \<Rightarrow> message
      | None \<Rightarrow> ''Task completed successfully'')"

text \<open>One pass through the body of the main loop.\<close>

definition loop_body :: "observation \<Rightarrow> agent_state \<Rightarrow> py_error + (step_outcome \<times> agent_state)" where
  "loop_body obs st =
     (let es1 = advance_step_counter (execution_state st) in
      if screenshot_captured obs \<and> detect_screen_loop (screen_hash obs) es1
      then Inr (Stalled,
                st\<lparr>execution_state := es1,
                   device_log := device_log st @ [PerformScroll Down]\<rparr>)
      else
        (let es2 = (if screenshot_captured obs then record_screen_hash (screen_hash obs) es1
                    else es1)
         in case vision_tier obs es2 of
              Inl err \<Rightarrow> Inl err
            | Inr (action1, es3) \<Rightarrow>
                (let (action2, es4) = ui_tier obs action1 es3;
                     action_to_execute = fallback_tier action2 es4;
                     (task_completion_achieved, commands, history) =
                        execute_parsed_action action_to_execute (executed_actions_history st);
                     es5 = update_task_progress action_to_execute es4;
                     st' = \<lparr>execution_state = es5,
                            executed_actions_history = history,
                            device_log = device_log st @ commands\<rparr>
                 in if contains ''TASK_COMPLETE'' action_to_execute
                    then Inr (Completed action_to_execute (completion_result action_to_execute), st')
                    else Inr (Executed action_to_execute task_completion_achieved, st'))))"

text \<open>
  The main loop. The collaborators are a function from the step number (the number in
  the name of the step's screenshot file) to what they answer in that step. The result is
  \<open>final_execution_result\<close> at the exit of the loop.
\<close>

function task_loop :: "(nat \<Rightarrow> observation) \<Rightarrow> agent_state \<Rightarrow> py_error + (string \<times> agent_state)" where
  "task_loop env st =
     (if has_reached_step_limit (execution_state st) then Inr ([], st)
      else
        (case loop_body (env (current_step_number (execution_state st) + 1)) st of
           Inl err \<Rightarrow> Inl err
         | Inr (Stalled, st') \<Rightarrow> task_loop env st'
         | Inr (Executed a c, st') \<Rightarrow> if c then Inr ([], st') else task_loop env st'
         | Inr (Completed a r, st') \<Rightarrow> Inr (r, st')))"
  by pat_completeness auto

lemma update_task_progress_step [simp]:
  "current_step_number (update_task_progress a es) = current_step_number es"
  "maximum_allowed_steps (update_task_progress a es) = maximum_allowed_steps es"
  by (simp_all add: update_task_progress_def)

lemma vision_tier_step:
  "vision_tier obs es = Inr (a, es') \<Longrightarrow>
     current_step_number es' = current_step_number es
     \<and> maximum_allowed_steps es' = maximum_allowed_steps es"
  by (auto simp: vision_tier_def split: option.splits if_splits sum.splits)

lemma ui_tier_step:
  "ui_tier obs a es = (a', es') \<Longrightarrow>
     current_step_number es' = current_step_number es
     \<and> maximum_allowed_steps es' = maximum_allowed_steps es"
  by (auto simp: ui_tier_def Let_def split: if_splits)

lemma loop_body_step:
  assumes "loop_body obs st = Inr (out, st')"
  shows "current_step_number (execution_state st') = current_step_number (execution_state st) + 1
         \<and> maximum_allowed_steps (execution_state st') = maximum_allowed_steps (execution_state st)"
proof (cases "screenshot_captured obs
                \<and> detect_screen_loop (screen_hash obs) (advance_step_counter (execution_state st))")
  case True
  with assms show ?thesis
    by (auto simp: loop_body_def Let_def advance_step_counter_def)
next
  case False
  define es2 where "es2 = (if screenshot_captured obs
      then record_screen_hash (screen_hash obs) (advance_step_counter (execution_state st))
      else advance_step_counter (execution_state st))"
  have es2: "current_step_number es2 = current_step_number (execution_state st) + 1"
    "maximum_allowed_steps es2 = maximum_allowed_steps (execution_state st)"
    by (simp_all add: es2_def record_screen_hash_def advance_step_counter_def)
  from assms False obtain a1 es3 where v: "vision_tier obs es2 = Inr (a1, es3)"
    by (auto simp: loop_body_def Let_def es2_def split: sum.splits)
  obtain a2 es4 where u: "ui_tier obs a1 es3 = (a2, es4)"
    by (cases "ui_tier obs a1 es3")
  from assms False v u
  have "execution_state st' = update_task_progress (fallback_tier a2 es4) es4"
    by (auto simp: loop_body_def Let_def es2_def split: prod.splits if_splits)
  with vision_tier_step [OF v] ui_tier_step [OF u] es2 show ?thesis
    by simp
qed

termination task_loop
proof (relation "measure (\<lambda>(env, st). nat (maximum_allowed_steps (execution_state st)
                                            - int (current_step_number (execution_state st))))")
  show "wf (measure (\<lambda>(env, st). nat (maximum_allowed_steps (execution_state st)
                                            - int (current_step_number (execution_state st)))))"
    by simp
next
  fix env st x2 x y x1
  assume "\<not> has_reached_step_limit (execution_state st)"
    and "loop_body (env (current_step_number (execution_state st) + 1)) st = Inr x2"
    and "(x, y) = x2" and "x = Stalled"
  then show "((env, y), env, st) \<in> measure (\<lambda>(env, st). nat (maximum_allowed_steps (execution_state st)
                                            - int (current_step_number (execution_state st))))"
    using loop_body_step [of "env (current_step_number (execution_state st) + 1)" st x y]
    by (auto simp: has_reached_step_limit_def)
next
  fix env st x2 x y x21 x22
  assume "\<not> has_reached_step_limit (execution_state st)"
    and "loop_body (env (current_step_number (execution_state st) + 1)) st = Inr x2"
    and "(x, y) = x2" and "x = Executed x21 x22" and "\<not> x22"
  then show "((env, y), env, st) \<in> measure (\<lambda>(env, st). nat (maximum_allowed_steps (execution_state st)
                                            - int (current_step_number (execution_state st))))"
    using loop_body_step [of "env (current_step_number (execution_state st) + 1)" st x y]
    by (auto simp: has_reached_step_limit_def)
qed

declare task_loop.simps [simp del]

text \<open>
  \<open>execute_task_instruction\<close>: the state is reset, the target application is launched
  when the instruction names one (\<open>launch_ok\<close> is the answer of the controller), the loop
  runs, and an empty result is replaced by the step count message.
\<close>

definition execute_task_instruction ::
  "string \<Rightarrow> bool \<Rightarrow> (nat \<Rightarrow> observation) \<Rightarrow> agent_state \<Rightarrow> py_error + string" where
  "execute_task_instruction task_instruction launch_ok env st =
     (let st0 = st\<lparr>execution_state := initialize_new_task task_instruction (execution_state st),
                   executed_actions_history := []\<rparr>
      in if extract_app_identifier task_instruction \<noteq> ''unknown'' \<and> \<not> launch_ok
         then Inr ''Failed to launch target application''
         else
           (case task_loop env st0 of
              Inl err \<Rightarrow> Inl err
            | Inr (final_execution_result, st') \<Rightarrow>
                if final_execution_result = []
                then Inr (''Task completed in ''
                            @ str_nat (current_step_number (execution_state st')) @ '' steps.'')
                else Inr final_execution_result))"

text \<open>
  Consecutive passes through the loop body, with the outcome of each pass: the steps of
  a task as the loop makes them, without the exit tests of the loop head.
\<close>

fun run_steps ::
  "nat \<Rightarrow> (nat \<Rightarrow> observation) \<Rightarrow> agent_state \<Rightarrow> py_error + (step_outcome list \<times> agent_state)" where
  "run_steps 0 env st = Inr ([], st)"
| "run_steps (Suc n) env st =
     (case loop_body (env (current_step_number (execution_state st) + 1)) st of
        Inl err \<Rightarrow> Inl err
      | Inr (out, st') \<Rightarrow>
          (case run_steps n env st' of
             Inl err \<Rightarrow> Inl err
           | Inr (outs, st'') \<Rightarrow> Inr (out # outs, st'')))"

text \<open>
  An observation on which the vision tier and the UI hierarchy tier both yield no
  action, whatever the progress flags are: no usable reply or a reply without an action,
  and no UI hierarchy or one without search candidates and without clickable elements.
\<close>

definition no_vision_action :: "observation \<Rightarrow> bool" where
  "no_vision_action obs =
     (case qwen_response obs of
        None \<Rightarrow> True
      | Some response \<Rightarrow>
          \<not> screenshot_captured obs \<or> response = []
          \<or> extract_action_from_response response
               (width_scale_factor obs) (height_scale_factor obs) = Inr None)"

definition no_ui_action :: "observation \<Rightarrow> bool" where
  "no_ui_action obs =
     (\<not> ui_hierarchy_captured obs
      \<or> (identify_search_elements (parsed_ui_elements obs) = []
          \<and> get_clickable_elements (parsed_ui_elements obs) = []))"

definition no_tier_action :: "observation \<Rightarrow> bool" where
  "no_tier_action obs = (no_vision_action obs \<and> no_ui_action obs)"

text \<open>The action a pass through the loop body chose, if it chose one.\<close>

fun chosen_action :: "step_outcome \<Rightarrow> string option" where
  "chosen_action Stalled = None"
| "chosen_action (Executed a c) = Some a"
| "chosen_action (Completed a r) = Some a"

text \<open>
  The state the constructors build (\<open>TaskExecutionState.__init__\<close> and
  \<open>ActionCoordinator.__init__\<close>), with nothing sent to the device yet.
\<close>

definition new_agent_state :: "int \<Rightarrow> agent_state" where
  "new_agent_state maximum_steps =
     \<lparr>execution_state =
        \<lparr>active_task_description = [], current_step_number = 0,
         maximum_allowed_steps = maximum_steps, search_initiated = False,
         query_entered = False, screen_hash_history = []\<rparr>,
      executed_actions_history = [],
      device_log = []\<rparr>"

text \<open>
  A step in which nothing was captured: no screenshot, hence no reply of the vision
  model, and no UI hierarchy.
\<close>

definition nothing_captured :: observation where
  "nothing_captured =
     \<lparr>screenshot_captured = False, ui_hierarchy_captured = False, screen_hash = [],
      qwen_response = None, width_scale_factor = float_one, height_scale_factor = float_one,
      parsed_ui_elements = []\<rparr>"

text \<open>A step with a screenshot and a reply of the vision model, and no UI hierarchy.\<close>

definition vision_reply :: "string \<Rightarrow> string \<Rightarrow> pyfloat \<Rightarrow> pyfloat \<Rightarrow> observation" where
  "vision_reply hash reply width_scale height_scale =
     \<lparr>screenshot_captured = True, ui_hierarchy_captured = False, screen_hash = hash,
      qwen_response = Some reply, width_scale_factor = width_scale,
      height_scale_factor = height_scale, parsed_ui_elements = []\<rparr>"

section \<open>Progress machine\<close>

lemma update_flags_kept:
  "search_initiated st \<Longrightarrow> search_initiated (update_task_progress a st)"
  "query_entered st \<Longrightarrow> query_entered (update_task_progress a st)"
  by (simp_all add: update_task_progress_def)

lemma update_rank_mono:
  "phase_rank (phase_of st) \<le> phase_rank (phase_of (update_task_progress a st))"
  by (simp add: update_task_progress_def phase_of_def)

lemma update_phase_change:
  assumes "phase_of (update_task_progress a st) \<noteq> phase_of st"
  shows "(phase_of st = SearchPending \<and> phase_of (update_task_progress a st) = SearchStarted
            \<and> contains ''TAP'' a \<and> contains_any search_keywords (lower a))
         \<or> (phase_of (update_task_progress a st) = QueryEntered \<and> contains ''TYPE'' a)"
  using assms by (auto simp: update_task_progress_def phase_of_def split: if_splits)

lemma update_all_flags_kept:
  "(search_initiated st \<longrightarrow> search_initiated (update_all as st))
   \<and> (query_entered st \<longrightarrow> query_entered (update_all as st))
   \<and> phase_rank (phase_of st) \<le> phase_rank (phase_of (update_all as st))"
proof (induction as arbitrary: st)
  case Nil
  show ?case by (simp add: update_all_def)
next
  case (Cons a as)
  have step: "update_all (a # as) st = update_all as (update_task_progress a st)"
    by (simp add: update_all_def)
  from Cons.IH [of "update_task_progress a st"] update_flags_kept [of st a]
    update_rank_mono [of st a]
  show ?case unfolding step by (meson le_trans)
qed

text \<open>
  Claim C4. The phase never regresses: any sequence of updates of the progress machine
  keeps a flag that is set and never lowers the phase; from QueryEntered every later
  action leaves the phase at QueryEntered; and one update changes the phase only from
  SearchPending to SearchStarted, on an action containing TAP and a search keyword, or to
  QueryEntered, on an action containing TYPE.
\<close>

theorem progress_never_regresses:
  "(search_initiated st \<longrightarrow> search_initiated (update_all as st))
   \<and> (query_entered st \<longrightarrow> query_entered (update_all as st))
   \<and> phase_rank (phase_of st) \<le> phase_rank (phase_of (update_all as st))
   \<and> (phase_of st = QueryEntered \<longrightarrow> phase_of (update_all as st) = QueryEntered)
   \<and> (phase_of (update_task_progress a st2) \<noteq> phase_of st2 \<longrightarrow>
        (phase_of st2 = SearchPending \<and> phase_of (update_task_progress a st2) = SearchStarted
           \<and> contains ''TAP'' a \<and> contains_any search_keywords (lower a))
        \<or> (phase_of (update_task_progress a st2) = QueryEntered \<and> contains ''TYPE'' a))"
proof -
  have q: "phase_of st = QueryEntered \<longrightarrow> phase_of (update_all as st) = QueryEntered"
    using update_all_flags_kept [of st as] by (auto simp: phase_of_def split: if_splits)
  show ?thesis
    using update_all_flags_kept [of st as] q update_phase_change [of a st2] by blast
qed

theorem progress_never_regresses_witness:
  "search_initiated
     \<lparr>active_task_description = ''find watermelons'', current_step_number = 3,
      maximum_allowed_steps = 20, search_initiated = True, query_entered = True,
      screen_hash_history = []\<rparr>
   \<and> phase_of
        \<lparr>active_task_description = ''find watermelons'', current_step_number = 3,
         maximum_allowed_steps = 20, search_initiated = True, query_entered = True,
         screen_hash_history = []\<rparr> = QueryEntered
   \<and> phase_of (update_all [''TAP (5,5) # search bar'', ''SCROLL down'']
        \<lparr>active_task_description = ''find watermelons'', current_step_number = 3,
         maximum_allowed_steps = 20, search_initiated = True, query_entered = True,
         screen_hash_history = []\<rparr>) = QueryEntered
   \<and> phase_of
        \<lparr>active_task_description = ''find watermelons'', current_step_number = 0,
         maximum_allowed_steps = 20, search_initiated = False, query_entered = False,
         screen_hash_history = []\<rparr> = SearchPending
   \<and> phase_of (update_task_progress ''TAP (5,5) # search bar''
        \<lparr>active_task_description = ''find watermelons'', current_step_number = 0,
         maximum_allowed_steps = 20, search_initiated = False, query_entered = False,
         screen_hash_history = []\<rparr>) = SearchStarted
   \<and> contains ''TAP'' ''TAP (5,5) # search bar''"
  using progress_never_regresses
    [of "\<lparr>active_task_description = ''find watermelons'', current_step_number = 3,
         maximum_allowed_steps = 20, search_initiated = True, query_entered = True,
         screen_hash_history = []\<rparr>"
        "[''TAP (5,5) # search bar'', ''SCROLL down'']"
        "''TAP (5,5) # search bar''"
        "\<lparr>active_task_description = ''find watermelons'', current_step_number = 0,
         maximum_allowed_steps = 20, search_initiated = False, query_entered = False,
         screen_hash_history = []\<rparr>"]
  by (simp add: phase_of_def update_task_progress_def contains_any_def search_keywords_def
      lower_def lower_char_def)

section \<open>Searching in strings\<close>

lemma after_prefix_append [simp]: "after_prefix p (p @ r) = Some r"
  by (induction p) auto

lemma after_prefix_startswith: "after_prefix p s = None \<longleftrightarrow> \<not> startswith s p"
  by (induction p s rule: after_prefix.induct) auto

lemma after_prefix_Some: "after_prefix p s = Some r \<longleftrightarrow> s = p @ r"
  by (induction p s rule: after_prefix.induct) auto

lemma startswith_iff: "startswith s p \<longleftrightarrow> (\<exists>r. s = p @ r)"
  by (induction s p rule: startswith.induct) auto

lemma contains_iff: "contains p s \<longleftrightarrow> (\<exists>i\<le>length s. startswith (drop i s) p)"
proof (induction s)
  case Nil
  show ?case by (cases p) auto
next
  case (Cons c cs)
  show ?case
  proof
    assume "contains p (c # cs)"
    then consider "startswith (c # cs) p" | "contains p cs" by auto
    then show "\<exists>i\<le>length (c # cs). startswith (drop i (c # cs)) p"
    proof cases
      case 1
      then have "startswith (drop 0 (c # cs)) p" by simp
      then show ?thesis by blast
    next
      case 2
      with Cons.IH obtain i where "i \<le> length cs" "startswith (drop i cs) p" by blast
      then have "Suc i \<le> length (c # cs)" "startswith (drop (Suc i) (c # cs)) p" by simp_all
      then show ?thesis by blast
    qed
  next
    assume "\<exists>i\<le>length (c # cs). startswith (drop i (c # cs)) p"
    then obtain i where i: "i \<le> length (c # cs)" "startswith (drop i (c # cs)) p" by blast
    show "contains p (c # cs)"
    proof (cases i)
      case 0
      with i show ?thesis by simp
    next
      case (Suc j)
      with i have "j \<le> length cs" "startswith (drop j cs) p" by simp_all
      with Cons.IH have "contains p cs" by blast
      then show ?thesis by simp
    qed
  qed
qed

lemma re_search_None: "re_search m s = None \<longleftrightarrow> (\<forall>i\<le>length s. m (drop i s) = None)"
proof (induction s)
  case Nil
  show ?case by simp
next
  case (Cons c cs)
  show ?case
  proof
    assume a: "re_search m (c # cs) = None"
    then have h: "m (c # cs) = None" and t: "re_search m cs = None"
      by (auto split: option.splits)
    show "\<forall>i\<le>length (c # cs). m (drop i (c # cs)) = None"
    proof (intro allI impI)
      fix i assume "i \<le> length (c # cs)"
      then show "m (drop i (c # cs)) = None"
        using h t Cons.IH by (cases i) auto
    qed
  next
    assume a: "\<forall>i\<le>length (c # cs). m (drop i (c # cs)) = None"
    then have "m (drop 0 (c # cs)) = None" by blast
    then have h: "m (c # cs) = None" by simp
    have "\<forall>i\<le>length cs. m (drop i cs) = None"
    proof (intro allI impI)
      fix i assume "i \<le> length cs"
      then have "Suc i \<le> length (c # cs)" by simp
      with a have "m (drop (Suc i) (c # cs)) = None" by blast
      then show "m (drop i cs) = None" by simp
    qed
    with Cons.IH h show "re_search m (c # cs) = None" by simp
  qed
qed

lemma re_search_skip:
  assumes "\<forall>i<length pre. m (drop i (pre @ s)) = None"
  shows "re_search m (pre @ s) = re_search m s"
  using assms
proof (induction pre)
  case Nil
  show ?case by simp
next
  case (Cons c pre)
  from Cons.prems have "m (drop 0 ((c # pre) @ s)) = None" by blast
  then have h: "m (c # pre @ s) = None" by simp
  have "\<forall>i<length pre. m (drop i (pre @ s)) = None"
  proof (intro allI impI)
    fix i assume "i < length pre"
    then have "Suc i < length (c # pre)" by simp
    with Cons.prems have "m (drop (Suc i) ((c # pre) @ s)) = None" by blast
    then show "m (drop i (pre @ s)) = None" by simp
  qed
  with Cons.IH h show ?case by simp
qed

lemma re_search_here: "m s = Some g \<Longrightarrow> re_search m s = Some g"
  by (cases s) auto

lemma re_search_Some: "re_search m s = Some g \<Longrightarrow> \<exists>i\<le>length s. m (drop i s) = Some g"
proof (induction s)
  case Nil
  then show ?case by simp
next
  case (Cons c cs)
  show ?case
  proof (cases "m (c # cs)")
    case None
    with Cons.prems have "re_search m cs = Some g" by simp
    with Cons.IH obtain i where "i \<le> length cs" "m (drop i cs) = Some g" by blast
    then have "Suc i \<le> length (c # cs)" "m (drop (Suc i) (c # cs)) = Some g" by simp_all
    then show ?thesis by blast
  next
    case (Some a)
    with Cons.prems have "m (drop 0 (c # cs)) = Some g" by simp
    then show ?thesis by blast
  qed
qed

lemma match_completion_nonempty: "match_completion_at s = Some g \<Longrightarrow> g \<noteq> []"
  by (auto simp: match_completion_at_def py_isspace_def newline_def
      split: option.splits list.splits dest: dropWhile_eq_Cons_conv [THEN iffD1])

section \<open>Digits and the TAP pattern\<close>

lemma digit_not_space: "py_isdigit c \<Longrightarrow> \<not> py_isspace c"
  by (auto simp: py_isdigit_def py_isspace_def)

lemma digit_char_isdigit: "d < 10 \<Longrightarrow> py_isdigit (digit_char d)"
  unfolding py_isdigit_def digit_char_def by (rule nth_mem) simp

lemma digit_val_digit_char: "d < 10 \<Longrightarrow> digit_val (digit_char d) = d"
proof -
  assume "d < 10"
  then have "d = 0 \<or> d = 1 \<or> d = 2 \<or> d = 3 \<or> d = 4 \<or> d = 5 \<or> d = 6 \<or> d = 7 \<or> d = 8 \<or> d = 9"
    by arith
  then show ?thesis
    by (elim disjE) (simp_all add: digit_val_def digit_char_def upt_rec)
qed

lemma str_nat_digits: "\<forall>c\<in>set (str_nat n). py_isdigit c"
proof (induction n rule: str_nat.induct)
  case (1 n)
  show ?case
  proof (cases "n < 10")
    case True
    then show ?thesis by (subst str_nat.simps) (simp add: digit_char_isdigit)
  next
    case False
    with 1 show ?thesis by (subst str_nat.simps) (simp add: digit_char_isdigit)
  qed
qed

lemma str_nat_nonempty: "str_nat n \<noteq> []"
  by (subst str_nat.simps) simp

lemma nat_of_digits_snoc: "nat_of_digits (ds @ [c]) = 10 * nat_of_digits ds + digit_val c"
  by (simp add: nat_of_digits_def)

lemma nat_of_digits_str_nat: "nat_of_digits (str_nat n) = n"
proof (induction n rule: str_nat.induct)
  case (1 n)
  show ?case
  proof (cases "n < 10")
    case True
    then show ?thesis
      by (subst str_nat.simps) (simp add: nat_of_digits_def digit_val_digit_char)
  next
    case False
    with 1 have "nat_of_digits (str_nat (n div 10)) = n div 10" by simp
    with False show ?thesis
      by (subst str_nat.simps) (simp add: nat_of_digits_snoc digit_val_digit_char)
  qed
qed

lemma int_of_digits_str_int: "0 \<le> x \<Longrightarrow> int_of_digits (str_int x) = x"
  by (simp add: int_of_digits_def str_int_def nat_of_digits_str_nat)

lemma str_int_digits: "0 \<le> x \<Longrightarrow> (\<forall>c\<in>set (str_int x). py_isdigit c) \<and> str_int x \<noteq> []"
  by (simp add: str_int_def str_nat_digits str_nat_nonempty)

lemma takeWhile_run:
  assumes "\<forall>c\<in>set ds. P c" "\<not> P q"
  shows "takeWhile P (ds @ q # r) = ds" "dropWhile P (ds @ q # r) = q # r"
  using assms by (simp_all add: takeWhile_append2 dropWhile_append2)

lemma char_classes:
  "\<not> py_isspace (CHR ''('')" "\<not> py_isdigit (CHR '','')" "\<not> py_isdigit (CHR '')'')"
  "\<not> py_isspace (CHR ''T'')" "\<not> py_isdigit (CHR ''#'')" "\<not> py_isdigit (CHR '' '')"
  "py_isspace (CHR '' '')" "\<not> py_isspace (CHR ''#'')" "py_isspace newline"
  by (simp_all add: py_isspace_def py_isdigit_def newline_def)

lemma match_tap_at_canonical:
  assumes ws: "\<forall>c\<in>set ws1. py_isspace c" "\<forall>c\<in>set ws2. py_isspace c"
    and dx: "dx \<noteq> []" "\<forall>c\<in>set dx. py_isdigit c"
    and dy: "dy \<noteq> []" "\<forall>c\<in>set dy. py_isdigit c"
  shows "match_tap_at (''TAP'' @ ws1 @ ''('' @ dx @ '','' @ ws2 @ dy @ '')'' @ rest) = Some (dx, dy)"
proof -
  have p: "after_prefix ''TAP'' (''TAP'' @ ws1 @ ''('' @ dx @ '','' @ ws2 @ dy @ '')'' @ rest)
             = Some (ws1 @ ''('' @ dx @ '','' @ ws2 @ dy @ '')'' @ rest)"
    by (rule after_prefix_append)
  have s1: "dropWhile py_isspace (ws1 @ ''('' @ dx @ '','' @ ws2 @ dy @ '')'' @ rest)
             = CHR ''('' # (dx @ '','' @ ws2 @ dy @ '')'' @ rest)"
    using takeWhile_run(2) [OF ws(1) char_classes(1)] by simp
  have d1: "takeWhile py_isdigit (dx @ '','' @ ws2 @ dy @ '')'' @ rest) = dx"
    "dropWhile py_isdigit (dx @ '','' @ ws2 @ dy @ '')'' @ rest)
       = CHR '','' # (ws2 @ dy @ '')'' @ rest)"
    using takeWhile_run [OF dx(2) char_classes(2)] by simp_all
  from dy obtain c r where cr: "dy = c # r" "py_isdigit c" by (cases dy) auto
  then have "\<not> py_isspace c" by (simp add: digit_not_space)
  with ws(2) cr have s2: "dropWhile py_isspace (ws2 @ dy @ '')'' @ rest) = dy @ '')'' @ rest"
    by (simp add: dropWhile_append2)
  have d2: "takeWhile py_isdigit (dy @ '')'' @ rest) = dy"
    "dropWhile py_isdigit (dy @ '')'' @ rest) = CHR '')'' # rest"
    using takeWhile_run [OF dy(2) char_classes(3)] by simp_all
  show ?thesis
    unfolding match_tap_at_def p
    by (simp add: s1 d1 s2 d2 dx dy del: append.simps append_Cons)
qed

lemma search_tap_canonical:
  assumes "\<forall>c\<in>set ws1. py_isspace c" "\<forall>c\<in>set ws2. py_isspace c"
    and "dx \<noteq> []" "\<forall>c\<in>set dx. py_isdigit c"
    and "dy \<noteq> []" "\<forall>c\<in>set dy. py_isdigit c"
  shows "search_tap (''TAP'' @ ws1 @ ''('' @ dx @ '','' @ ws2 @ dy @ '')'' @ rest) = Some (dx, dy)"
  unfolding search_tap_def
  by (rule re_search_here) (rule match_tap_at_canonical [OF assms])

section \<open>Stripping, lines and the line scan\<close>

lemma lstrip_id: "s \<noteq> [] \<Longrightarrow> \<not> py_isspace (hd s) \<Longrightarrow> lstrip s = s"
  by (cases s) (simp_all add: lstrip_def)

lemma rstrip_id: "s \<noteq> [] \<Longrightarrow> \<not> py_isspace (last s) \<Longrightarrow> rstrip s = s"
proof -
  assume a: "s \<noteq> []" "\<not> py_isspace (last s)"
  then have h: "hd (rev s) = last s" by (simp add: hd_rev)
  from a obtain x xs where x: "rev s = x # xs" by (cases "rev s") auto
  with h a have "\<not> py_isspace x" by simp
  then have "dropWhile py_isspace (x # xs) = x # xs" by simp
  then have "rev (dropWhile py_isspace (rev s)) = rev (rev s)" by (simp only: x)
  then show ?thesis by (simp add: rstrip_def)
qed

lemma strip_id: "s \<noteq> [] \<Longrightarrow> \<not> py_isspace (hd s) \<Longrightarrow> \<not> py_isspace (last s) \<Longrightarrow> strip s = s"
  by (simp add: strip_def lstrip_id rstrip_id)

lemma strip_Nil [simp]: "strip [] = []"
  by (simp add: strip_def lstrip_def rstrip_def)

lemma rstrip_decomp: "\<exists>ws. t = rstrip t @ ws \<and> (\<forall>c\<in>set ws. py_isspace c)"
proof -
  have "rev (takeWhile py_isspace (rev t) @ dropWhile py_isspace (rev t)) = t"
    by (simp only: takeWhile_dropWhile_id rev_rev_ident)
  then have "rev (dropWhile py_isspace (rev t)) @ rev (takeWhile py_isspace (rev t)) = t"
    by (simp only: rev_append)
  then have "t = rstrip t @ rev (takeWhile py_isspace (rev t))"
    by (simp only: rstrip_def)
  moreover have "\<forall>c\<in>set (rev (takeWhile py_isspace (rev t))). py_isspace c"
    by (auto dest: set_takeWhileD)
  ultimately show ?thesis by blast
qed

lemma rstrip_last: "rstrip t \<noteq> [] \<Longrightarrow> \<not> py_isspace (last (rstrip t))"
proof -
  assume "rstrip t \<noteq> []"
  then have ne: "dropWhile py_isspace (rev t) \<noteq> []" by (simp add: rstrip_def)
  then have "\<not> py_isspace (hd (dropWhile py_isspace (rev t)))" by (rule hd_dropWhile)
  with ne show ?thesis by (simp add: rstrip_def last_rev)
qed

lemma strip_ends:
  assumes "strip s \<noteq> []"
  shows "\<not> py_isspace (hd (strip s))" "\<not> py_isspace (last (strip s))"
proof -
  let ?t = "lstrip s"
  from assms have r: "rstrip ?t \<noteq> []" by (simp add: strip_def)
  obtain ws where ws: "?t = rstrip ?t @ ws" using rstrip_decomp by blast
  with r have t: "?t \<noteq> []" by auto
  then have "\<not> py_isspace (hd ?t)" unfolding lstrip_def by (rule hd_dropWhile)
  moreover from ws r have "hd ?t = hd (rstrip ?t)" by (metis hd_append2)
  ultimately show "\<not> py_isspace (hd (strip s))" by (simp add: strip_def)
  from rstrip_last [OF r] show "\<not> py_isspace (last (strip s))" by (simp add: strip_def)
qed

lemma strip_idem [simp]: "strip (strip s) = strip s"
proof (cases "strip s = []")
  case True
  then show ?thesis by simp
next
  case False
  from strip_id [OF False strip_ends [OF False]] show ?thesis .
qed

lemma set_strip: "set (strip s) \<subseteq> set s"
proof -
  have "set (rstrip (lstrip s)) \<subseteq> set (lstrip s)"
    using rstrip_decomp [of "lstrip s"] by (metis Un_upper1 set_append)
  moreover have "set (lstrip s) \<subseteq> set s"
    unfolding lstrip_def by (auto dest: set_dropWhileD)
  ultimately show ?thesis by (auto simp: strip_def)
qed

lemma strip_space_Cons: "py_isspace c \<Longrightarrow> strip (c # s) = strip s"
  by (simp add: strip_def lstrip_def)

lemma split_lines_single: "newline \<notin> set s \<Longrightarrow> split_lines s = [s]"
  by (induction s) auto

lemma split_lines_nonempty [simp]: "split_lines s \<noteq> []"
  by (induction s) (auto split: list.splits)

lemma split_lines_newline_free: "l \<in> set (split_lines s) \<Longrightarrow> newline \<notin> set l"
proof (induction s arbitrary: l)
  case Nil
  then show ?case by simp
next
  case (Cons c cs)
  show ?case
  proof (cases "c = newline")
    case True
    with Cons show ?thesis by auto
  next
    case False
    obtain k ks where ks: "split_lines cs = k # ks"
      using split_lines_nonempty [of cs] by (cases "split_lines cs") auto
    with Cons.prems False have "l = c # k \<or> l \<in> set ks" by simp
    then show ?thesis
    proof
      assume "l = c # k"
      moreover from ks Cons.IH [of k] have "newline \<notin> set k" by simp
      ultimately show ?thesis using False by simp
    next
      assume "l \<in> set ks"
      with ks Cons.IH [of l] show ?thesis by simp
    qed
  qed
qed

lemma scan_lines_skip:
  assumes "\<forall>b\<in>set before. skipped_line (strip b) \<or> \<not> action_pattern_line (strip b)"
  shows "scan_lines (before @ rest) sw sh = scan_lines rest sw sh"
  using assms
  by (induction before) (auto simp: Let_def action_pattern_line_def split: option.splits)

lemma scan_lines_None:
  "scan_lines ls sw sh = None \<longleftrightarrow>
     (\<forall>l\<in>set ls. skipped_line (strip l) \<or> \<not> action_pattern_line (strip l))"
  by (induction ls) (auto simp: Let_def action_pattern_line_def split: option.splits)

lemma scan_lines_tap:
  assumes "\<not> skipped_line (strip l)" "search_tap (strip l) = Some g"
  shows "scan_lines (l # after) sw sh = Some (scaled_tap g sw sh (tap_comment (strip l)))"
  using assms by (simp add: Let_def)

lemma scan_lines_other:
  assumes "\<not> skipped_line (strip l)" "search_tap (strip l) = None" "action_pattern_line (strip l)"
  shows "scan_lines (l # after) sw sh = Some (Inr (strip l))"
  using assms by (auto simp: Let_def action_pattern_line_def)

lemma scan_lines_result:
  assumes "scan_lines ls sw sh = Some r"
  shows "\<exists>l\<in>set ls. \<not> skipped_line (strip l)
           \<and> ((\<exists>g. search_tap (strip l) = Some g \<and> r = scaled_tap g sw sh (tap_comment (strip l)))
              \<or> (search_tap (strip l) = None \<and> action_pattern_line (strip l) \<and> r = Inr (strip l)))"
  using assms
proof (induction ls)
  case Nil
  then show ?case by simp
next
  case (Cons l ls)
  show ?case
  proof (cases "skipped_line (strip l) \<or> \<not> action_pattern_line (strip l)")
    case True
    then have "scan_lines (l # ls) sw sh = scan_lines ls sw sh"
      using scan_lines_skip [of "[l]" ls sw sh] by simp
    with Cons show ?thesis by auto
  next
    case False
    show ?thesis
    proof (cases "search_tap (strip l)")
      case None
      with False Cons.prems scan_lines_other [of l ls sw sh] show ?thesis by auto
    next
      case (Some g)
      with False Cons.prems scan_lines_tap [of l g ls sw sh]
      have "r = scaled_tap g sw sh (tap_comment (strip l))" by simp
      with Some False show ?thesis
        by (intro bexI [where x = l] conjI disjI1 exI [where x = g]) simp_all
    qed
  qed
qed

section \<open>The loop body\<close>

lemma advance_keeps [simp]:
  "screen_hash_history (advance_step_counter es) = screen_hash_history es"
  "search_initiated (advance_step_counter es) = search_initiated es"
  "query_entered (advance_step_counter es) = query_entered es"
  by (simp_all add: advance_step_counter_def)

lemma update_task_progress_hashes [simp]:
  "screen_hash_history (update_task_progress a es) = screen_hash_history es"
  by (simp add: update_task_progress_def)

lemma vision_tier_hashes:
  "vision_tier obs es = Inr (a, es') \<Longrightarrow> screen_hash_history es' = screen_hash_history es"
  by (auto simp: vision_tier_def split: option.splits if_splits sum.splits)

lemma ui_tier_hashes:
  "ui_tier obs a es = (a', es') \<Longrightarrow> screen_hash_history es' = screen_hash_history es"
  by (auto simp: ui_tier_def Let_def split: if_splits)

lemma detect_advance [simp]:
  "detect_screen_loop h (advance_step_counter es) = detect_screen_loop h es"
  by (simp add: detect_screen_loop_def)

lemma loop_body_stall:
  assumes "screenshot_captured obs" "detect_screen_loop (screen_hash obs) (execution_state st)"
  shows "loop_body obs st =
           Inr (Stalled, st\<lparr>execution_state := advance_step_counter (execution_state st),
                              device_log := device_log st @ [PerformScroll Down]\<rparr>)"
  using assms by (simp add: loop_body_def Let_def)

lemma loop_body_no_stall:
  assumes "\<not> (screenshot_captured obs \<and> detect_screen_loop (screen_hash obs) (execution_state st))"
    and "loop_body obs st = Inr (out, st')"
  shows "out \<noteq> Stalled
         \<and> screen_hash_history (execution_state st') =
             (if screenshot_captured obs
              then last_n 5 (screen_hash_history (execution_state st) @ [screen_hash obs])
              else screen_hash_history (execution_state st))"
proof -
  define es2 where "es2 = (if screenshot_captured obs
      then record_screen_hash (screen_hash obs) (advance_step_counter (execution_state st))
      else advance_step_counter (execution_state st))"
  have es2: "screen_hash_history es2 =
             (if screenshot_captured obs
              then last_n 5 (screen_hash_history (execution_state st) @ [screen_hash obs])
              else screen_hash_history (execution_state st))"
    by (simp add: es2_def record_screen_hash_def)
  from assms obtain a1 es3 where v: "vision_tier obs es2 = Inr (a1, es3)"
    by (auto simp: loop_body_def Let_def es2_def split: sum.splits)
  obtain a2 es4 where u: "ui_tier obs a1 es3 = (a2, es4)"
    by (cases "ui_tier obs a1 es3")
  from assms v u
  have "execution_state st' = update_task_progress (fallback_tier a2 es4) es4 \<and> out \<noteq> Stalled"
    by (auto simp: loop_body_def Let_def es2_def split: prod.splits if_splits)
  with vision_tier_hashes [OF v] ui_tier_hashes [OF u] es2 show ?thesis
    by simp
qed

lemma loop_body_run:
  assumes "\<not> (screenshot_captured obs \<and> detect_screen_loop (screen_hash obs) (execution_state st))"
    and "es2 = (if screenshot_captured obs
                then record_screen_hash (screen_hash obs) (advance_step_counter (execution_state st))
                else advance_step_counter (execution_state st))"
    and "vision_tier obs es2 = Inr (a1, es3)"
    and "ui_tier obs a1 es3 = (a2, es4)"
    and "act = fallback_tier a2 es4"
  shows "loop_body obs st =
           Inr (if contains ''TASK_COMPLETE'' act then Completed act (completion_result act)
                else Executed act (fst (execute_parsed_action act (executed_actions_history st))),
                \<lparr>execution_state = update_task_progress act es4,
                 executed_actions_history =
                   snd (snd (execute_parsed_action act (executed_actions_history st))),
                 device_log = device_log st
                   @ fst (snd (execute_parsed_action act (executed_actions_history st)))\<rparr>)"
  using assms by (simp add: loop_body_def Let_def split: prod.splits)

lemma loop_body_cases:
  assumes "loop_body obs st = Inr (out, st')"
  shows "(out = Stalled \<and> screenshot_captured obs
            \<and> detect_screen_loop (screen_hash obs) (execution_state st))
         \<or> (\<exists>act. out = (if contains ''TASK_COMPLETE'' act
                           then Completed act (completion_result act)
                           else Executed act (fst (execute_parsed_action act (executed_actions_history st)))))"
proof (cases "screenshot_captured obs \<and> detect_screen_loop (screen_hash obs) (execution_state st)")
  case True
  with assms show ?thesis by (simp add: loop_body_stall)
next
  case False
  define es2 where "es2 = (if screenshot_captured obs
      then record_screen_hash (screen_hash obs) (advance_step_counter (execution_state st))
      else advance_step_counter (execution_state st))"
  from assms False obtain a1 es3 where v: "vision_tier obs es2 = Inr (a1, es3)"
    by (auto simp: loop_body_def Let_def es2_def split: sum.splits)
  obtain a2 es4 where u: "ui_tier obs a1 es3 = (a2, es4)"
    by (cases "ui_tier obs a1 es3")
  from loop_body_run [OF False es2_def v u refl] assms show ?thesis
    by auto
qed

lemma no_vision_action_tier:
  "no_vision_action obs \<Longrightarrow> vision_tier obs es = Inr (None, es)"
  by (auto simp: no_vision_action_def vision_tier_def split: option.splits)

lemma generate_fallback_none:
  "get_clickable_elements els = [] \<Longrightarrow> generate_fallback_action els n = None"
  by (simp add: generate_fallback_action_def)

lemma no_ui_action_tier:
  "no_ui_action obs \<Longrightarrow> ui_tier obs None es = (None, es)"
  by (auto simp: no_ui_action_def ui_tier_def truthy_def Let_def generate_fallback_none)

lemma fallback_actions_eval:
  "cleaned_action ''TAP (540,150)'' = ''TAP (540,150)''"
  "cleaned_action ''SCROLL down'' = ''SCROLL down''"
  "cleaned_action ''TAP (100,300)'' = ''TAP (100,300)''"
  "cleaned_action ''TAP (540,400)'' = ''TAP (540,400)''"
  "search_tap ''TAP (540,150)'' = Some (''540'', ''150'')"
  "search_tap ''TAP (100,300)'' = Some (''100'', ''300'')"
  "search_tap ''TAP (540,400)'' = Some (''540'', ''400'')"
  "search_tap ''SCROLL down'' = None"
  "search_type_quoted ''SCROLL down'' = None"
  "contains ''SCROLL'' (upper ''SCROLL down'')"
  by code_simp+

lemma fallback_actions_execute:
  assumes "k < 4"
  shows "\<not> contains ''TASK_COMPLETE'' (get_predefined_fallback_actions ! k)
         \<and> fst (execute_parsed_action (get_predefined_fallback_actions ! k) h) = False"
proof -
  from assms have "k = 0 \<or> k = 1 \<or> k = 2 \<or> k = 3" by arith
  then show ?thesis
    by (elim disjE)
       (simp_all add: get_predefined_fallback_actions_def execute_parsed_action_def Let_def
         fallback_actions_eval)
qed

lemma loop_body_fallback:
  assumes "no_tier_action obs"
    and "\<not> (screenshot_captured obs \<and> detect_screen_loop (screen_hash obs) (execution_state st))"
  shows "\<exists>st'. loop_body obs st =
           Inr (Executed (get_predefined_fallback_actions
                           ! ((current_step_number (execution_state st) + 1) mod 4)) False, st')"
proof -
  define es2 where "es2 = (if screenshot_captured obs
      then record_screen_hash (screen_hash obs) (advance_step_counter (execution_state st))
      else advance_step_counter (execution_state st))"
  have n: "current_step_number es2 = current_step_number (execution_state st) + 1"
    by (simp add: es2_def record_screen_hash_def advance_step_counter_def)
  from assms have v: "vision_tier obs es2 = Inr (None, es2)"
    and u: "ui_tier obs None es2 = (None, es2)"
    by (simp_all add: no_tier_action_def no_vision_action_tier no_ui_action_tier)
  have f: "fallback_tier None es2 = get_predefined_fallback_actions
             ! ((current_step_number (execution_state st) + 1) mod 4)"
    by (simp add: fallback_tier_def predefined_fallback_def n get_predefined_fallback_actions_def)
  have k: "(current_step_number (execution_state st) + 1) mod 4 < 4" by simp
  from loop_body_run [OF assms(2) es2_def v u f [symmetric]] fallback_actions_execute [OF k]
  show ?thesis by simp
qed

lemma loop_body_silent:
  assumes "no_tier_action obs"
  shows "\<exists>out st'. loop_body obs st = Inr (out, st')
           \<and> (out = Stalled \<or> out = Executed (get_predefined_fallback_actions
                           ! ((current_step_number (execution_state st) + 1) mod 4)) False)
           \<and> (\<not> screenshot_captured obs \<longrightarrow> out \<noteq> Stalled)"
proof (cases "screenshot_captured obs \<and> detect_screen_loop (screen_hash obs) (execution_state st)")
  case True
  then show ?thesis by (simp add: loop_body_stall)
next
  case False
  from loop_body_fallback [OF assms False] show ?thesis by auto
qed

lemma run_steps_silent:
  assumes "\<forall>k<n. no_tier_action (env (current_step_number (execution_state st) + 1 + k))"
  shows "\<exists>outs st'. run_steps n env st = Inr (outs, st') \<and> length outs = n
          \<and> (\<forall>k<n. outs ! k = Stalled
                \<or> outs ! k = Executed (get_predefined_fallback_actions
                     ! ((current_step_number (execution_state st) + 1 + k) mod 4)) False)
          \<and> (\<forall>k<n. \<not> screenshot_captured (env (current_step_number (execution_state st) + 1 + k))
                \<longrightarrow> outs ! k \<noteq> Stalled)"
  using assms
proof (induction n arbitrary: st)
  case 0
  show ?case by simp
next
  case (Suc n)
  let ?s = "current_step_number (execution_state st)"
  from Suc.prems have "no_tier_action (env (?s + 1))" by force
  from loop_body_silent [OF this, of st] obtain out st1 where
    b: "loop_body (env (?s + 1)) st = Inr (out, st1)"
    and o: "out = Stalled \<or> out = Executed (get_predefined_fallback_actions ! ((?s + 1) mod 4)) False"
    and ns: "\<not> screenshot_captured (env (?s + 1)) \<longrightarrow> out \<noteq> Stalled"
    by blast
  from loop_body_step [OF b]
  have s1: "current_step_number (execution_state st1) = ?s + 1" by simp
  have "\<forall>k<n. no_tier_action (env (current_step_number (execution_state st1) + 1 + k))"
  proof (intro allI impI)
    fix k assume "k < n"
    then have "Suc k < Suc n" by simp
    with Suc.prems have "no_tier_action (env (?s + 1 + Suc k))" by blast
    then show "no_tier_action (env (current_step_number (execution_state st1) + 1 + k))"
      by (simp add: s1)
  qed
  from Suc.IH [OF this] obtain outs st2 where
    r: "run_steps n env st1 = Inr (outs, st2)" and l: "length outs = n"
    and a: "\<forall>k<n. outs ! k = Stalled
                \<or> outs ! k = Executed (get_predefined_fallback_actions
                     ! ((current_step_number (execution_state st1) + 1 + k) mod 4)) False"
    and c: "\<forall>k<n. \<not> screenshot_captured (env (current_step_number (execution_state st1) + 1 + k))
                \<longrightarrow> outs ! k \<noteq> Stalled"
    by blast
  have run: "run_steps (Suc n) env st = Inr (out # outs, st2)"
    using b r by simp
  have all: "\<forall>k<Suc n. (out # outs) ! k = Stalled
                \<or> (out # outs) ! k = Executed (get_predefined_fallback_actions
                     ! ((?s + 1 + k) mod 4)) False"
  proof (intro allI impI)
    fix k assume k: "k < Suc n"
    show "(out # outs) ! k = Stalled
                \<or> (out # outs) ! k = Executed (get_predefined_fallback_actions
                     ! ((?s + 1 + k) mod 4)) False"
    proof (cases k)
      case 0
      with o show ?thesis by simp
    next
      case (Suc j)
      with k a s1 show ?thesis by simp
    qed
  qed
  have cap: "\<forall>k<Suc n. \<not> screenshot_captured (env (?s + 1 + k)) \<longrightarrow> (out # outs) ! k \<noteq> Stalled"
  proof (intro allI impI)
    fix k assume k: "k < Suc n" and nc: "\<not> screenshot_captured (env (?s + 1 + k))"
    show "(out # outs) ! k \<noteq> Stalled"
    proof (cases k)
      case 0
      with ns nc show ?thesis by simp
    next
      case (Suc j)
      with k c s1 nc show ?thesis by simp
    qed
  qed
  from run l all cap show ?case by simp
qed

section \<open>Stall detection\<close>

text \<open>
  Claim C3. A stall is declared exactly when a screenshot was captured and its
  fingerprint is among the last 3 entries of the fingerprint history as it stands
  before the step. On a stall step the loop body does nothing but advance the step
  counter and send a scroll-down: no tier runs, no action is chosen, and the fingerprint
  history and the action history are unchanged. On a step with a screenshot that is not
  a stall, the fingerprint is recorded (the last 5 are kept).
\<close>

theorem stall_detection:
  "(detect_screen_loop h es \<longleftrightarrow> h \<in> set (last_n 3 (screen_hash_history es)))
   \<and> ((\<exists>st'. loop_body obs st = Inr (Stalled, st'))
        \<longleftrightarrow> (screenshot_captured obs
              \<and> screen_hash obs \<in> set (last_n 3 (screen_hash_history (execution_state st)))))
   \<and> (loop_body obs st = Inr (Stalled, st') \<longrightarrow>
          st' = st\<lparr>execution_state := advance_step_counter (execution_state st),
                     device_log := device_log st @ [PerformScroll Down]\<rparr>
          \<and> screen_hash_history (execution_state st') = screen_hash_history (execution_state st)
          \<and> executed_actions_history st' = executed_actions_history st)
   \<and> (loop_body obs2 st2 = Inr (out, st2') \<and> out \<noteq> Stalled \<and> screenshot_captured obs2 \<longrightarrow>
          screen_hash_history (execution_state st2')
            = last_n 5 (screen_hash_history (execution_state st2) @ [screen_hash obs2]))"
proof -
  let ?stall = "screenshot_captured obs
       \<and> detect_screen_loop (screen_hash obs) (execution_state st)"
  have iff: "(\<exists>st'. loop_body obs st = Inr (Stalled, st')) \<longleftrightarrow> ?stall"
  proof
    assume "\<exists>st'. loop_body obs st = Inr (Stalled, st')"
    then obtain st' where b: "loop_body obs st = Inr (Stalled, st')" ..
    show ?stall
    proof (rule ccontr)
      assume "\<not> ?stall"
      from loop_body_no_stall [OF this b] show False by simp
    qed
  next
    assume ?stall
    then show "\<exists>st'. loop_body obs st = Inr (Stalled, st')"
      by (simp add: loop_body_stall)
  qed
  have stalled: "loop_body obs st = Inr (Stalled, st') \<longrightarrow>
          st' = st\<lparr>execution_state := advance_step_counter (execution_state st),
                     device_log := device_log st @ [PerformScroll Down]\<rparr>
          \<and> screen_hash_history (execution_state st') = screen_hash_history (execution_state st)
          \<and> executed_actions_history st' = executed_actions_history st"
  proof
    assume b: "loop_body obs st = Inr (Stalled, st')"
    with iff have ?stall by blast
    then have "loop_body obs st =
           Inr (Stalled, st\<lparr>execution_state := advance_step_counter (execution_state st),
                              device_log := device_log st @ [PerformScroll Down]\<rparr>)"
      by (simp add: loop_body_stall)
    with b have "st' = st\<lparr>execution_state := advance_step_counter (execution_state st),
                     device_log := device_log st @ [PerformScroll Down]\<rparr>"
      by simp
    then show "st' = st\<lparr>execution_state := advance_step_counter (execution_state st),
                     device_log := device_log st @ [PerformScroll Down]\<rparr>
          \<and> screen_hash_history (execution_state st') = screen_hash_history (execution_state st)
          \<and> executed_actions_history st' = executed_actions_history st"
      by simp
  qed
  have recorded: "loop_body obs2 st2 = Inr (out, st2') \<and> out \<noteq> Stalled \<and> screenshot_captured obs2 \<longrightarrow>
          screen_hash_history (execution_state st2')
            = last_n 5 (screen_hash_history (execution_state st2) @ [screen_hash obs2])"
  proof
    assume a: "loop_body obs2 st2 = Inr (out, st2') \<and> out \<noteq> Stalled \<and> screenshot_captured obs2"
    have "\<not> (screenshot_captured obs2
             \<and> detect_screen_loop (screen_hash obs2) (execution_state st2))"
    proof
      assume "screenshot_captured obs2
             \<and> detect_screen_loop (screen_hash obs2) (execution_state st2)"
      then have "loop_body obs2 st2 =
           Inr (Stalled, st2\<lparr>execution_state := advance_step_counter (execution_state st2),
                              device_log := device_log st2 @ [PerformScroll Down]\<rparr>)"
        by (simp add: loop_body_stall)
      with a show False by auto
    qed
    from loop_body_no_stall [OF this] a
    show "screen_hash_history (execution_state st2')
            = last_n 5 (screen_hash_history (execution_state st2) @ [screen_hash obs2])"
      by simp
  qed
  from iff stalled recorded show ?thesis
    by (simp add: detect_screen_loop_def)
qed

text \<open>
  The history \<open>[h1, h2, h3]\<close> with \<open>h1\<close> arriving as the fourth observation is a stall;
  a fingerprint \<open>h4\<close> in the same state is recorded.
\<close>

definition three_screens_seen :: agent_state where
  "three_screens_seen =
     \<lparr>execution_state =
        \<lparr>active_task_description = ''find watermelons'', current_step_number = 3,
         maximum_allowed_steps = 20, search_initiated = False,
         query_entered = False, screen_hash_history = [''h1'', ''h2'', ''h3'']\<rparr>,
      executed_actions_history = [],
      device_log = []\<rparr>"

lemma three_screens_eval:
  "loop_body (vision_reply ''h1'' ''SCROLL down'' float_one float_one) three_screens_seen
     = Inr (Stalled,
         three_screens_seen
           \<lparr>execution_state := advance_step_counter (execution_state three_screens_seen),
            device_log := device_log three_screens_seen @ [PerformScroll Down]\<rparr>)"
  "loop_body (vision_reply ''h4'' ''SCROLL down'' float_one float_one) three_screens_seen
     = Inr (Executed ''SCROLL down'' False,
         \<lparr>execution_state =
            \<lparr>active_task_description = ''find watermelons'', current_step_number = 4,
             maximum_allowed_steps = 20, search_initiated = False,
             query_entered = False, screen_hash_history = [''h1'', ''h2'', ''h3'', ''h4'']\<rparr>,
          executed_actions_history = [],
          device_log = [PerformScroll Down]\<rparr>)"
  by code_simp+

theorem stall_detection_witness:
  "loop_body (vision_reply ''h1'' ''SCROLL down'' float_one float_one) three_screens_seen
     = Inr (Stalled,
         three_screens_seen
           \<lparr>execution_state := advance_step_counter (execution_state three_screens_seen),
            device_log := device_log three_screens_seen @ [PerformScroll Down]\<rparr>)
   \<and> screen_hash_history (execution_state (three_screens_seen
           \<lparr>execution_state := advance_step_counter (execution_state three_screens_seen),
            device_log := device_log three_screens_seen @ [PerformScroll Down]\<rparr>))
       = [''h1'', ''h2'', ''h3'']
   \<and> screenshot_captured (vision_reply ''h4'' ''SCROLL down'' float_one float_one)
   \<and> last_n 5 (screen_hash_history (execution_state three_screens_seen)
                  @ [screen_hash (vision_reply ''h4'' ''SCROLL down'' float_one float_one)])
       = [''h1'', ''h2'', ''h3'', ''h4'']"
  using stall_detection
    [of "''h1''" "execution_state three_screens_seen"
        "vision_reply ''h1'' ''SCROLL down'' float_one float_one" three_screens_seen
        "three_screens_seen
           \<lparr>execution_state := advance_step_counter (execution_state three_screens_seen),
            device_log := device_log three_screens_seen @ [PerformScroll Down]\<rparr>"
        "vision_reply ''h4'' ''SCROLL down'' float_one float_one" three_screens_seen
        "Executed ''SCROLL down'' False"
        "\<lparr>execution_state =
            \<lparr>active_task_description = ''find watermelons'', current_step_number = 4,
             maximum_allowed_steps = 20, search_initiated = False,
             query_entered = False, screen_hash_history = [''h1'', ''h2'', ''h3'', ''h4'']\<rparr>,
          executed_actions_history = [],
          device_log = [PerformScroll Down]\<rparr>"]
    three_screens_eval
  by (simp add: three_screens_seen_def vision_reply_def last_n_def advance_step_counter_def)

section \<open>The predefined fallback tier\<close>

lemma nothing_captured_silent: "no_tier_action nothing_captured"
  by (simp add: no_tier_action_def no_vision_action_def no_ui_action_def nothing_captured_def)

lemma four_fallback_steps_eval:
  "run_steps 4 (\<lambda>step. nothing_captured) (new_agent_state 20) =
     Inr ([Executed ''SCROLL down'' False, Executed ''TAP (100,300)'' False,
           Executed ''TAP (540,400)'' False, Executed ''TAP (540,150)'' False],
          \<lparr>execution_state =
             \<lparr>active_task_description = [], current_step_number = 4,
              maximum_allowed_steps = 20, search_initiated = False,
              query_entered = False, screen_hash_history = []\<rparr>,
           executed_actions_history = [''TAP(100,300)'', ''TAP(540,400)'', ''TAP(540,150)''],
           device_log = [PerformScroll Down, PerformTap 100 300, PerformTap 540 400,
                         PerformTap 540 150]\<rparr>)"
  by code_simp

text \<open>
  Claim C7, as the code has it. In four consecutive steps in which neither the vision
  tier nor the UI hierarchy tier yields an action, the four passes of the loop body
  succeed, and each pass that is not a stall step executes the predefined fallback action
  at index (step number mod 4), where the step number is the counter already advanced at
  the start of the pass: from a state with step counter \<open>s\<close> the indices are
  \<open>(s + 1) mod 4\<close>, \<open>(s + 2) mod 4\<close>, \<open>(s + 3) mod 4\<close>, \<open>(s + 4) mod 4\<close>. A pass
  without a screenshot is never a stall step.
\<close>

theorem fallback_cycle:
  assumes "\<forall>k<4. no_tier_action (env (current_step_number (execution_state st) + 1 + k))"
  shows "\<exists>outs st'. run_steps 4 env st = Inr (outs, st') \<and> length outs = 4
          \<and> (\<forall>k<4. outs ! k = Stalled
                \<or> outs ! k = Executed (get_predefined_fallback_actions
                     ! ((current_step_number (execution_state st) + 1 + k) mod 4)) False)
          \<and> (\<forall>k<4. \<not> screenshot_captured (env (current_step_number (execution_state st) + 1 + k))
                \<longrightarrow> outs ! k \<noteq> Stalled)"
  using run_steps_silent [OF assms] .

text \<open>At the start of a task the four steps take the positions 1, 2, 3, 0.\<close>

theorem fallback_cycle_witness:
  "no_tier_action nothing_captured
   \<and> (\<exists>outs st'. run_steps 4 (\<lambda>step. nothing_captured) (new_agent_state 20) = Inr (outs, st')
         \<and> outs = [Executed (get_predefined_fallback_actions ! 1) False,
                    Executed (get_predefined_fallback_actions ! 2) False,
                    Executed (get_predefined_fallback_actions ! 3) False,
                    Executed (get_predefined_fallback_actions ! 0) False])"
proof -
  have h: "\<forall>k<4. no_tier_action ((\<lambda>step. nothing_captured)
             (current_step_number (execution_state (new_agent_state 20)) + 1 + k))"
    by (simp add: nothing_captured_silent)
  from fallback_cycle [OF h] obtain outs st' where
    r: "run_steps 4 (\<lambda>step. nothing_captured) (new_agent_state 20) = Inr (outs, st')"
    by blast
  with four_fallback_steps_eval
  have "outs = [Executed (get_predefined_fallback_actions ! 1) False,
                    Executed (get_predefined_fallback_actions ! 2) False,
                    Executed (get_predefined_fallback_actions ! 3) False,
                    Executed (get_predefined_fallback_actions ! 0) False]"
    by (simp add: get_predefined_fallback_actions_def)
  with r nothing_captured_silent show ?thesis by blast
qed

text \<open>
  The positions 0, 1, 2, 3 in that order are not what the first four steps of a task take:
  the first step already has the step number 1 and takes position 1.
\<close>

theorem fallback_order_counterexample:
  "run_steps 4 (\<lambda>step. nothing_captured) (new_agent_state 20) =
     Inr ([Executed ''SCROLL down'' False, Executed ''TAP (100,300)'' False,
           Executed ''TAP (540,400)'' False, Executed ''TAP (540,150)'' False],
          \<lparr>execution_state =
             \<lparr>active_task_description = [], current_step_number = 4,
              maximum_allowed_steps = 20, search_initiated = False,
              query_entered = False, screen_hash_history = []\<rparr>,
           executed_actions_history = [''TAP(100,300)'', ''TAP(540,400)'', ''TAP(540,150)''],
           device_log = [PerformScroll Down, PerformTap 100 300, PerformTap 540 400,
                         PerformTap 540 150]\<rparr>)
   \<and> no_tier_action nothing_captured
   \<and> get_predefined_fallback_actions ! 0 = ''TAP (540,150)''
   \<and> get_predefined_fallback_actions ! 1 = ''SCROLL down''
   \<and> [''SCROLL down'', ''TAP (100,300)'', ''TAP (540,400)'', ''TAP (540,150)'']
       \<noteq> get_predefined_fallback_actions"
  using four_fallback_steps_eval nothing_captured_silent
  by (simp add: get_predefined_fallback_actions_def)

section \<open>Task completion\<close>

lemma search_completion_nonempty: "search_completion s = Some g \<Longrightarrow> g \<noteq> []"
  unfolding search_completion_def
  using re_search_Some [of match_completion_at s g] match_completion_nonempty by blast

lemma completion_result_nonempty: "completion_result a \<noteq> []"
  by (auto simp: completion_result_def split: option.splits dest: search_completion_nonempty)

lemma match_completion_None: "\<not> startswith s ''TASK_COMPLETE:'' \<Longrightarrow> match_completion_at s = None"
  using after_prefix_startswith [of "''TASK_COMPLETE:''" s]
  by (simp add: match_completion_at_def)

lemma completion_result_default:
  assumes "\<not> contains ''TASK_COMPLETE:'' a"
  shows "completion_result a = ''Task completed successfully''"
proof -
  from assms have "\<forall>i\<le>length a. \<not> startswith (drop i a) ''TASK_COMPLETE:''"
    by (simp add: contains_iff)
  then have "\<forall>i\<le>length a. match_completion_at (drop i a) = None"
    using match_completion_None by blast
  then have "search_completion a = None"
    by (simp add: search_completion_def re_search_None)
  then show ?thesis by (simp add: completion_result_def)
qed

lemma completion_result_message:
  assumes a: "a = pre @ ''TASK_COMPLETE:'' @ ws @ msg"
    and first: "\<forall>i<length pre. \<not> startswith (drop i a) ''TASK_COMPLETE:''"
    and ws: "\<forall>c\<in>set ws. py_isspace c"
    and msg: "msg \<noteq> []" "\<not> py_isspace (hd msg)" "newline \<notin> set msg"
  shows "completion_result a = msg"
proof -
  from first have "\<forall>i<length pre. match_completion_at (drop i (pre @ ''TASK_COMPLETE:'' @ ws @ msg)) = None"
    using match_completion_None a by blast
  then have skip: "search_completion a = re_search match_completion_at (''TASK_COMPLETE:'' @ ws @ msg)"
    unfolding search_completion_def a by (rule re_search_skip)
  from msg obtain c r where cr: "msg = c # r" "\<not> py_isspace c"
    by (cases msg) auto
  from ws cr have d: "dropWhile py_isspace (ws @ msg) = c # r"
    by (simp add: dropWhile_append1 dropWhile_append2)
  from msg have t: "takeWhile (\<lambda>x. x \<noteq> newline) msg = msg"
    by (simp add: takeWhile_eq_all_conv) metis
  have "after_prefix ''TASK_COMPLETE:'' (''TASK_COMPLETE:'' @ ws @ msg) = Some (ws @ msg)"
    by (rule after_prefix_append)
  with d t cr have "match_completion_at (''TASK_COMPLETE:'' @ ws @ msg) = Some msg"
    by (simp add: match_completion_at_def)
  then have "re_search match_completion_at (''TASK_COMPLETE:'' @ ws @ msg) = Some msg"
    by (rule re_search_here)
  with skip show ?thesis by (simp add: completion_result_def)
qed

lemma loop_body_completed:
  assumes "loop_body obs st = Inr (out, st')" "chosen_action out = Some a"
    "contains ''TASK_COMPLETE'' a"
  shows "out = Completed a (completion_result a)"
  using loop_body_cases [OF assms(1)] assms(2,3)
  by (auto split: if_splits)

lemma task_loop_continue:
  assumes "\<not> has_reached_step_limit (execution_state st)"
    and "loop_body (env (current_step_number (execution_state st) + 1)) st = Inr (out, st')"
    and "out = Stalled \<or> (\<exists>b. out = Executed b False)"
  shows "task_loop env st = task_loop env st'"
  using assms by (subst task_loop.simps) auto

lemma run_steps_step_number:
  "run_steps k env st = Inr (outs, st') \<Longrightarrow>
     current_step_number (execution_state st') = current_step_number (execution_state st) + k
     \<and> maximum_allowed_steps (execution_state st') = maximum_allowed_steps (execution_state st)"
proof (induction k arbitrary: st outs)
  case 0
  then show ?case by simp
next
  case (Suc k)
  from Suc.prems obtain out st1 outs1 where
    b: "loop_body (env (current_step_number (execution_state st) + 1)) st = Inr (out, st1)"
    and r: "run_steps k env st1 = Inr (outs1, st')"
    by (auto split: sum.splits prod.splits)
  from loop_body_step [OF b] Suc.IH [OF r] show ?case by simp
qed

lemma task_loop_after_steps:
  assumes "run_steps k env st = Inr (outs, st')"
    and "\<forall>out\<in>set outs. out = Stalled \<or> (\<exists>b. out = Executed b False)"
    and "\<not> has_reached_step_limit (execution_state st')"
  shows "task_loop env st = task_loop env st'"
  using assms
proof (induction k arbitrary: st outs)
  case 0
  then show ?case by simp
next
  case (Suc k)
  from Suc.prems(1) obtain out st1 outs1 where
    b: "loop_body (env (current_step_number (execution_state st) + 1)) st = Inr (out, st1)"
    and r: "run_steps k env st1 = Inr (outs1, st')" and o: "outs = out # outs1"
    by (auto split: sum.splits prod.splits)
  from run_steps_step_number [OF Suc.prems(1)] Suc.prems(3)
  have lim: "\<not> has_reached_step_limit (execution_state st)"
    by (simp add: has_reached_step_limit_def)
  from Suc.prems(2) o have c: "out = Stalled \<or> (\<exists>b. out = Executed b False)"
    and cs: "\<forall>out\<in>set outs1. out = Stalled \<or> (\<exists>b. out = Executed b False)"
    by simp_all
  from task_loop_continue [where env = env, OF lim b c] Suc.IH [OF r cs Suc.prems(3)]
  show ?case by simp
qed

text \<open>
  Claim C8. When, after any number of steps that went on, the loop body executes an
  action that contains \<open>TASK_COMPLETE\<close>, the loop ends at once and the result of the task
  is the completion result of that action, which is never empty: the text that follows
  the first \<open>TASK_COMPLETE:\<close> and the whitespace after it, up to the end of the line, and
  the default message when the action has no \<open>TASK_COMPLETE:\<close>.
\<close>

theorem task_completion:
  assumes "run_steps k env st0 = Inr (outs, st)"
    and "\<forall>out\<in>set outs. out = Stalled \<or> (\<exists>b. out = Executed b False)"
    and "\<not> has_reached_step_limit (execution_state st)"
    and "loop_body (env (current_step_number (execution_state st) + 1)) st = Inr (out, st')"
    and "chosen_action out = Some a"
    and "contains ''TASK_COMPLETE'' a"
  shows "task_loop env st0 = Inr (completion_result a, st')
    \<and> completion_result a \<noteq> []
    \<and> (st0 = st_init\<lparr>execution_state := initialize_new_task task (execution_state st_init),
                       executed_actions_history := []\<rparr>
         \<and> (extract_app_identifier task = ''unknown'' \<or> launch_ok)
       \<longrightarrow> execute_task_instruction task launch_ok env st_init = Inr (completion_result a))
    \<and> (a = pre @ ''TASK_COMPLETE:'' @ ws @ msg
         \<and> (\<forall>i<length pre. \<not> startswith (drop i a) ''TASK_COMPLETE:'')
         \<and> (\<forall>c\<in>set ws. py_isspace c)
         \<and> msg \<noteq> [] \<and> \<not> py_isspace (hd msg) \<and> newline \<notin> set msg
       \<longrightarrow> completion_result a = msg)
    \<and> (\<not> contains ''TASK_COMPLETE:'' a2
       \<longrightarrow> completion_result a2 = ''Task completed successfully'')"
proof -
  from loop_body_completed [OF assms(4,5,6)]
  have out: "out = Completed a (completion_result a)" .
  have "task_loop env st = Inr (completion_result a, st')"
    using assms(3,4) out by (subst task_loop.simps) simp
  with task_loop_after_steps [OF assms(1,2,3)]
  have loop: "task_loop env st0 = Inr (completion_result a, st')" by simp
  have ne: "completion_result a \<noteq> []" by (rule completion_result_nonempty)
  have whole: "st0 = st_init\<lparr>execution_state := initialize_new_task task (execution_state st_init),
                       executed_actions_history := []\<rparr>
         \<and> (extract_app_identifier task = ''unknown'' \<or> launch_ok)
       \<longrightarrow> execute_task_instruction task launch_ok env st_init = Inr (completion_result a)"
    using loop ne by (auto simp: execute_task_instruction_def Let_def)
  from loop ne whole completion_result_message [of a pre ws msg] completion_result_default [of a2]
  show ?thesis by blast
qed

text \<open>
  A task whose first step falls back to a scroll and whose second step gets the reply
  \<open>TASK_COMPLETE: Found 3 items\<close>: the result is exactly \<open>Found 3 items\<close>.
\<close>

definition found_items_run :: "nat \<Rightarrow> observation" where
  "found_items_run step =
     (if step = 2 then vision_reply ''h1'' ''TASK_COMPLETE: Found 3 items'' float_one float_one
      else nothing_captured)"

definition after_first_scroll :: agent_state where
  "after_first_scroll =
     \<lparr>execution_state =
        \<lparr>active_task_description = ''find watermelons'', current_step_number = 1,
         maximum_allowed_steps = 20, search_initiated = False,
         query_entered = False, screen_hash_history = []\<rparr>,
      executed_actions_history = [],
      device_log = [PerformScroll Down]\<rparr>"

definition after_completion :: agent_state where
  "after_completion =
     \<lparr>execution_state =
        \<lparr>active_task_description = ''find watermelons'', current_step_number = 2,
         maximum_allowed_steps = 20, search_initiated = False,
         query_entered = False, screen_hash_history = [''h1'']\<rparr>,
      executed_actions_history = [],
      device_log = [PerformScroll Down]\<rparr>"

lemma found_items_eval:
  "run_steps 1 found_items_run
     ((new_agent_state 20)\<lparr>execution_state :=
         initialize_new_task ''find watermelons'' (execution_state (new_agent_state 20)),
       executed_actions_history := []\<rparr>)
     = Inr ([Executed ''SCROLL down'' False], after_first_scroll)"
  "\<not> has_reached_step_limit (execution_state after_first_scroll)"
  "loop_body (found_items_run (current_step_number (execution_state after_first_scroll) + 1))
     after_first_scroll
     = Inr (Completed ''TASK_COMPLETE: Found 3 items'' ''Found 3 items'', after_completion)"
  "contains ''TASK_COMPLETE'' ''TASK_COMPLETE: Found 3 items''"
  "extract_app_identifier ''find watermelons'' = ''unknown''"
  "\<not> contains ''TASK_COMPLETE:'' ''TASK_COMPLETE''"
  by code_simp+

theorem task_completion_witness:
  "run_steps 1 found_items_run
     ((new_agent_state 20)\<lparr>execution_state :=
         initialize_new_task ''find watermelons'' (execution_state (new_agent_state 20)),
       executed_actions_history := []\<rparr>)
     = Inr ([Executed ''SCROLL down'' False], after_first_scroll)
   \<and> loop_body (found_items_run (current_step_number (execution_state after_first_scroll) + 1))
       after_first_scroll
     = Inr (Completed ''TASK_COMPLETE: Found 3 items'' ''Found 3 items'', after_completion)
   \<and> execute_task_instruction ''find watermelons'' True found_items_run (new_agent_state 20)
     = Inr ''Found 3 items''
   \<and> completion_result ''TASK_COMPLETE: Found 3 items'' = ''Found 3 items''
   \<and> completion_result ''TASK_COMPLETE'' = ''Task completed successfully''"
proof -
  have outs: "\<forall>out\<in>set [Executed ''SCROLL down'' False].
                out = Stalled \<or> (\<exists>b. out = Executed b False)"
    by simp
  have chosen: "chosen_action (Completed ''TASK_COMPLETE: Found 3 items'' ''Found 3 items'')
                  = Some ''TASK_COMPLETE: Found 3 items''"
    by simp
  have shape: "''TASK_COMPLETE: Found 3 items'' = [] @ ''TASK_COMPLETE:'' @ '' '' @ ''Found 3 items''
         \<and> (\<forall>i<length ([] :: string). \<not> startswith (drop i ''TASK_COMPLETE: Found 3 items'') ''TASK_COMPLETE:'')
         \<and> (\<forall>c\<in>set '' ''. py_isspace c)
         \<and> ''Found 3 items'' \<noteq> [] \<and> \<not> py_isspace (hd ''Found 3 items'')
         \<and> newline \<notin> set ''Found 3 items''"
    by (simp add: py_isspace_def newline_def)
  note t = task_completion
      [where st_init = "new_agent_state 20" and task = "''find watermelons''"
         and launch_ok = True and pre = "[]" and ws = "'' ''" and msg = "''Found 3 items''"
         and ?a2.0 = "''TASK_COMPLETE''",
       OF found_items_eval(1) outs found_items_eval(2) found_items_eval(3)
         chosen found_items_eval(4)]
  from t shape have r2: "completion_result ''TASK_COMPLETE: Found 3 items'' = ''Found 3 items''"
    by blast
  from t found_items_eval(5)
  have "execute_task_instruction ''find watermelons'' True found_items_run (new_agent_state 20)
          = Inr (completion_result ''TASK_COMPLETE: Found 3 items'')"
    by blast
  with r2
  have r1: "execute_task_instruction ''find watermelons'' True found_items_run (new_agent_state 20)
          = Inr ''Found 3 items''"
    by simp
  from t found_items_eval(6)
  have r3: "completion_result ''TASK_COMPLETE'' = ''Task completed successfully''"
    by blast
  from found_items_eval(1) found_items_eval(3) r1 r2 r3 show ?thesis
    by blast
qed

section \<open>The search ranker\<close>

lemma collect_candidates_eq:
  "collect_candidates es =
     map (\<lambda>e. e\<lparr>search_relevance_score := Some (relevance_score e)\<rparr>)
       (filter (\<lambda>e. relevance_score e > 0) es)"
  by (induction es) auto

lemma sort_descending_sorted:
  "sorted_wrt (\<lambda>a b. stored_score a \<ge> stored_score b) (sort_descending cs)"
proof -
  have "sorted (map (\<lambda>x. - stored_score x) (sort_descending cs))"
    unfolding sort_descending_def by (rule sorted_sort_key)
  then show ?thesis by (simp add: sorted_map)
qed

lemma sort_descending_stable:
  "filter (\<lambda>x. stored_score x = k) (sort_descending cs) = filter (\<lambda>x. stored_score x = k) cs"
proof -
  have "filter (\<lambda>x. - stored_score x = - k) (sort_key (\<lambda>x. - stored_score x) cs)
          = filter (\<lambda>x. - stored_score x = - k) cs"
    by (rule sort_key_stable)
  then show ?thesis by (simp add: sort_descending_def)
qed

lemma relevance_score_sum:
  "relevance_score e =
     (if contains_any [''search'', ''find''] (combined_text e) then 5 else 0)
     + (if contains ''edittext'' (lower (element_class e)) then 4 else 0)
     + (if contains_any [''search'', ''query'', ''input''] (lower (resource_id e)) then 3 else 0)
     + (if contains_any [''search'', ''magnify'', ''glass''] (combined_text e) then 2 else 0)
     + (if element_width e > 200 \<and> element_height e > 30 then 1 else 0)"
  by (simp add: relevance_score_def Let_def)

lemma identify_members:
  assumes "r \<in> set (identify_search_elements es)"
  shows "\<exists>e\<in>set es. r = e\<lparr>search_relevance_score := Some (relevance_score e)\<rparr>
           \<and> relevance_score e > 0 \<and> stored_score r = relevance_score e"
proof -
  from assms have "r \<in> set (sort_descending (collect_candidates es))"
    unfolding identify_search_elements_def by (rule in_set_takeD)
  then have "r \<in> set (collect_candidates es)"
    by (simp add: sort_descending_def)
  then show ?thesis
    by (auto simp: collect_candidates_eq stored_score_def)
qed

lemma contains_appendI: "contains p s \<Longrightarrow> contains p (s @ t)"
proof (induction s)
  case Nil
  then show ?case by (cases t) auto
next
  case (Cons c cs)
  have "startswith (c # cs) p \<Longrightarrow> startswith ((c # cs) @ t) p"
  proof -
    assume "startswith (c # cs) p"
    then obtain r where "c # cs = p @ r" by (auto simp: startswith_iff)
    then have "(c # cs) @ t = p @ (r @ t)" by simp
    then show ?thesis unfolding startswith_iff by blast
  qed
  with Cons show ?case by auto
qed

lemma search_field_score:
  assumes "display_text e = ''Search products''" "element_class e = ''EditText''"
  shows "relevance_score e \<ge> 11"
proof -
  have "contains ''search'' (lower ''Search products'')" by code_simp
  then have c: "contains ''search'' (combined_text e)"
    unfolding combined_text_def assms by (rule contains_appendI)
  have "contains ''edittext'' (lower ''EditText'')" by code_simp
  with c assms show ?thesis
    by (simp add: relevance_score_sum contains_any_def)
qed

text \<open>
  Claim C6. The search ranker returns at most 5 elements: the first 5 of the candidates
  sorted by descending stored score. The candidates are the elements with a score above
  0, in snapshot order, each with its score stored; the sort is stable (for every score,
  the candidates with that score keep their snapshot order); the score is the sum of the
  five additions; a field with text \<open>Search products\<close> and class \<open>EditText\<close> scores at
  least 9; an element with a higher score stands before one with a lower score.
\<close>

theorem search_ranking:
  "length (identify_search_elements es) \<le> 5
   \<and> identify_search_elements es = take 5 (sort_descending (collect_candidates es))
   \<and> collect_candidates es =
       map (\<lambda>e. e\<lparr>search_relevance_score := Some (relevance_score e)\<rparr>)
         (filter (\<lambda>e. relevance_score e > 0) es)
   \<and> sorted_wrt (\<lambda>a b. stored_score a \<ge> stored_score b) (identify_search_elements es)
   \<and> (\<forall>r\<in>set (identify_search_elements es).
         \<exists>e\<in>set es. r = e\<lparr>search_relevance_score := Some (relevance_score e)\<rparr>
           \<and> relevance_score e > 0 \<and> stored_score r = relevance_score e)
   \<and> filter (\<lambda>x. stored_score x = k) (sort_descending (collect_candidates es))
       = filter (\<lambda>x. stored_score x = k) (collect_candidates es)
   \<and> relevance_score e =
       (if contains_any [''search'', ''find''] (combined_text e) then 5 else 0)
       + (if contains ''edittext'' (lower (element_class e)) then 4 else 0)
       + (if contains_any [''search'', ''query'', ''input''] (lower (resource_id e)) then 3 else 0)
       + (if contains_any [''search'', ''magnify'', ''glass''] (combined_text e) then 2 else 0)
       + (if element_width e > 200 \<and> element_height e > 30 then 1 else 0)
   \<and> (display_text e2 = ''Search products'' \<and> element_class e2 = ''EditText''
        \<longrightarrow> relevance_score e2 \<ge> 9)
   \<and> (i < j \<and> j < length (identify_search_elements es)
        \<and> stored_score (identify_search_elements es ! j) = s
        \<longrightarrow> stored_score (identify_search_elements es ! i) \<ge> s)"
proof -
  have len: "length (identify_search_elements es) \<le> 5"
    by (simp add: identify_search_elements_def)
  have srt: "sorted_wrt (\<lambda>a b. stored_score a \<ge> stored_score b) (identify_search_elements es)"
    unfolding identify_search_elements_def
    by (rule sorted_wrt_take) (rule sort_descending_sorted)
  have mem: "\<forall>r\<in>set (identify_search_elements es).
         \<exists>e\<in>set es. r = e\<lparr>search_relevance_score := Some (relevance_score e)\<rparr>
           \<and> relevance_score e > 0 \<and> stored_score r = relevance_score e"
    using identify_members by blast
  have fld: "display_text e2 = ''Search products'' \<and> element_class e2 = ''EditText''
        \<longrightarrow> relevance_score e2 \<ge> 9"
    using search_field_score [of e2] by auto
  have ord: "i < j \<and> j < length (identify_search_elements es)
        \<and> stored_score (identify_search_elements es ! j) = s
        \<longrightarrow> stored_score (identify_search_elements es ! i) \<ge> s"
    using srt by (auto simp: sorted_wrt_iff_nth_less)
  from len srt mem fld ord show ?thesis
    using collect_candidates_eq [of es] sort_descending_stable [of k "collect_candidates es"]
      relevance_score_sum [of e]
    by (simp add: identify_search_elements_def)
qed

text \<open>
  A snapshot with a large box (score 1), a label without any marker (score 0) and the
  search field (score 11): the field is ranked first, the label is left out.
\<close>

definition large_box :: ui_element where
  "large_box =
     \<lparr>center_x = 540, center_y = 900, display_text = ''Groceries'', content_description = [],
      resource_id = [], element_class = ''android.widget.FrameLayout'', is_clickable = True,
      is_scrollable = False, bounds_string = ''[0,600][1080,1200]'', element_width = 1080,
      element_height = 600, search_relevance_score = None\<rparr>"

definition small_label :: ui_element where
  "small_label =
     \<lparr>center_x = 60, center_y = 40, display_text = ''Home'', content_description = [],
      resource_id = [], element_class = ''android.widget.TextView'', is_clickable = False,
      is_scrollable = False, bounds_string = ''[20,20][100,60]'', element_width = 80,
      element_height = 40, search_relevance_score = None\<rparr>"

definition search_field :: ui_element where
  "search_field =
     \<lparr>center_x = 200, center_y = 80, display_text = ''Search products'',
      content_description = [], resource_id = [], element_class = ''EditText'',
      is_clickable = True, is_scrollable = False, bounds_string = ''[100,60][300,100]'',
      element_width = 200, element_height = 40, search_relevance_score = None\<rparr>"

lemma ranking_eval:
  "identify_search_elements [large_box, small_label, search_field] =
     [search_field\<lparr>search_relevance_score := Some 11\<rparr>,
      large_box\<lparr>search_relevance_score := Some 1\<rparr>]"
  "relevance_score small_label = 0"
  "display_text search_field = ''Search products''"
  "element_class search_field = ''EditText''"
  by code_simp+

theorem search_ranking_witness:
  "identify_search_elements [large_box, small_label, search_field] =
     [search_field\<lparr>search_relevance_score := Some 11\<rparr>,
      large_box\<lparr>search_relevance_score := Some 1\<rparr>]
   \<and> relevance_score small_label = 0
   \<and> relevance_score search_field \<ge> 9
   \<and> stored_score (identify_search_elements [large_box, small_label, search_field] ! 0)
        \<ge> stored_score (identify_search_elements [large_box, small_label, search_field] ! 1)"
proof -
  note t = search_ranking
    [where es = "[large_box, small_label, search_field]" and ?e2.0 = search_field
       and i = 0 and j = 1
       and s = "stored_score (identify_search_elements [large_box, small_label, search_field] ! 1)"]
  from t ranking_eval(3,4) have a: "relevance_score search_field \<ge> 9"
    by blast
  have "(0::nat) < 1 \<and> 1 < length (identify_search_elements [large_box, small_label, search_field])"
    by (simp add: ranking_eval(1))
  with t have b: "stored_score (identify_search_elements [large_box, small_label, search_field] ! 0)
        \<ge> stored_score (identify_search_elements [large_box, small_label, search_field] ! 1)"
    by blast
  from ranking_eval(1,2) a b show ?thesis by blast
qed

section \<open>The action coordinator\<close>

lemma select_action_line_first:
  assumes "\<forall>b\<in>set before. \<not> action_pattern_line (strip b)" "action_pattern_line (strip l)"
  shows "select_action_line (before @ l # after) = Some (strip l)"
  using assms by (induction before) auto

lemma select_action_line_none:
  assumes "\<forall>l\<in>set ls. \<not> action_pattern_line (strip l)"
  shows "select_action_line ls = None"
  using assms by (induction ls) auto

lemma execute_tap_repeating:
  assumes "search_tap (cleaned_action cmd) = Some g"
    "count_list (last_n 4 history) (tap_identity g) \<ge> 2"
  shows "execute_parsed_action cmd history = (False, [PerformScroll Down], history)"
  using assms
  by (simp add: execute_parsed_action_def Let_def is_action_repeating_def
      max_action_repetitions_def)

lemma execute_tap_admitted:
  assumes "search_tap (cleaned_action cmd) = Some g"
    "count_list (last_n 4 history) (tap_identity g) < 2"
  shows "execute_parsed_action cmd history =
           (False, [PerformTap (int_of_digits (fst g)) (int_of_digits (snd g))],
            last_n 10 (history @ [tap_identity g]))"
  using assms
  by (simp add: execute_parsed_action_def Let_def is_action_repeating_def
      max_action_repetitions_def)

lemma execute_non_tap:
  assumes "search_tap (cleaned_action cmd) = None"
  shows "\<not> is_action_repeating (cleaned_action cmd) history
         \<and> execute_parsed_action cmd history =
             (fst (execute_parsed_action cmd []), fst (snd (execute_parsed_action cmd [])), history)"
  using assms
  by (simp add: execute_parsed_action_def Let_def is_action_repeating_def split: option.splits)

lemma execute_true_iff:
  "fst (execute_parsed_action cmd history) \<longleftrightarrow>
     (contains ''TASK_COMPLETE'' (upper (cleaned_action cmd))
      \<and> search_tap (cleaned_action cmd) = None
      \<and> search_type_quoted (cleaned_action cmd) = None
      \<and> \<not> contains ''SCROLL'' (upper (cleaned_action cmd)))"
  by (simp add: execute_parsed_action_def Let_def split: option.splits)

lemma execute_type:
  assumes "search_tap (cleaned_action cmd) = None" "search_type_quoted (cleaned_action cmd) = Some t"
  shows "execute_parsed_action cmd history = (False, [PerformTextInput t], history)"
  using assms by (simp add: execute_parsed_action_def Let_def)

lemma execute_scroll:
  assumes "search_tap (cleaned_action cmd) = None" "search_type_quoted (cleaned_action cmd) = None"
    "contains ''SCROLL'' (upper (cleaned_action cmd))"
  shows "execute_parsed_action cmd history =
           (False, [PerformScroll (if contains ''up'' (lower (cleaned_action cmd)) then Up else Down)],
            history)"
  using assms by (simp add: execute_parsed_action_def Let_def)

lemma execute_tap_false:
  assumes "search_tap (cleaned_action cmd) = Some g"
  shows "execute_parsed_action cmd history = (False, [PerformScroll Down], history)
         \<or> execute_parsed_action cmd history =
           (False, [PerformTap (int_of_digits (fst g)) (int_of_digits (snd g))],
            last_n 10 (history @ [tap_identity g]))"
  using execute_tap_repeating [OF assms, of history] execute_tap_admitted [OF assms, of history]
  by (cases "count_list (last_n 4 history) (tap_identity g) \<ge> 2") auto

text \<open>
  Claim C2, as the code has it. When the identity \<open>TAP(x,y)\<close> of the selected action
  occurs at least 2 times among the last 4 entries of the history, the coordinator sends a
  scroll-down in place of the tap and the history is unchanged. A tap whose own identity
  occurs fewer than 2 times among the last 4 entries is executed, and its identity is
  appended to the history (the last 10 are kept). An action without a TAP pattern is never
  found repeating: the history is unchanged and what is done does not depend on it.
\<close>

theorem loop_guard:
  "(search_tap (cleaned_action cmd) = Some g
      \<and> count_list (last_n 4 history) (tap_identity g) \<ge> 2
     \<longrightarrow> execute_parsed_action cmd history = (False, [PerformScroll Down], history))
   \<and> (search_tap (cleaned_action cmd1) = Some g1
      \<and> count_list (last_n 4 history1) (tap_identity g1) < 2
     \<longrightarrow> execute_parsed_action cmd1 history1 =
           (False, [PerformTap (int_of_digits (fst g1)) (int_of_digits (snd g1))],
            last_n 10 (history1 @ [tap_identity g1])))
   \<and> (search_tap (cleaned_action cmd2) = None
     \<longrightarrow> \<not> is_action_repeating (cleaned_action cmd2) history2
         \<and> execute_parsed_action cmd2 history2 =
             (fst (execute_parsed_action cmd2 []), fst (snd (execute_parsed_action cmd2 [])),
              history2))"
  using execute_tap_repeating [of cmd g history] execute_tap_admitted [of cmd1 g1 history1]
    execute_non_tap [of cmd2 history2]
  by blast

text \<open>
  With \<open>TAP(50,50)\<close> twice in the history, a third \<open>TAP (50,50)\<close> is replaced by a scroll
  and not appended; \<open>TAP (60,60)\<close> is executed and appended; a scroll passes.
\<close>

lemma loop_guard_eval:
  "search_tap (cleaned_action ''TAP (50,50) # search icon'') = Some (''50'', ''50'')"
  "search_tap (cleaned_action ''TAP (60,60) # search bar'') = Some (''60'', ''60'')"
  "search_tap (cleaned_action ''SCROLL down'') = None"
  "count_list (last_n 4 [''TAP(50,50)'', ''TAP(10,10)'', ''TAP(50,50)''])
     (tap_identity (''50'', ''50'')) = 2"
  "count_list (last_n 4 [''TAP(50,50)'', ''TAP(10,10)'', ''TAP(50,50)''])
     (tap_identity (''60'', ''60'')) = 0"
  "int_of_digits ''60'' = 60"
  "last_n 10 ([''TAP(50,50)'', ''TAP(10,10)'', ''TAP(50,50)''] @ [tap_identity (''60'', ''60'')])
     = [''TAP(50,50)'', ''TAP(10,10)'', ''TAP(50,50)'', ''TAP(60,60)'']"
  "execute_parsed_action ''SCROLL down'' [] = (False, [PerformScroll Down], [])"
  by code_simp+

theorem loop_guard_witness:
  "execute_parsed_action ''TAP (50,50) # search icon''
       [''TAP(50,50)'', ''TAP(10,10)'', ''TAP(50,50)'']
     = (False, [PerformScroll Down], [''TAP(50,50)'', ''TAP(10,10)'', ''TAP(50,50)''])
   \<and> execute_parsed_action ''TAP (60,60) # search bar''
       [''TAP(50,50)'', ''TAP(10,10)'', ''TAP(50,50)'']
     = (False, [PerformTap 60 60],
        [''TAP(50,50)'', ''TAP(10,10)'', ''TAP(50,50)'', ''TAP(60,60)''])
   \<and> execute_parsed_action ''SCROLL down'' [''TAP(50,50)'', ''TAP(10,10)'', ''TAP(50,50)'']
     = (False, [PerformScroll Down], [''TAP(50,50)'', ''TAP(10,10)'', ''TAP(50,50)''])"
proof -
  note t = loop_guard
    [where cmd = "''TAP (50,50) # search icon''" and g = "(''50'', ''50'')"
       and history = "[''TAP(50,50)'', ''TAP(10,10)'', ''TAP(50,50)'']"
       and ?cmd1.0 = "''TAP (60,60) # search bar''" and ?g1.0 = "(''60'', ''60'')"
       and ?history1.0 = "[''TAP(50,50)'', ''TAP(10,10)'', ''TAP(50,50)'']"
       and ?cmd2.0 = "''SCROLL down''"
       and ?history2.0 = "[''TAP(50,50)'', ''TAP(10,10)'', ''TAP(50,50)'']"]
  have a: "execute_parsed_action ''TAP (50,50) # search icon''
       [''TAP(50,50)'', ''TAP(10,10)'', ''TAP(50,50)'']
     = (False, [PerformScroll Down], [''TAP(50,50)'', ''TAP(10,10)'', ''TAP(50,50)''])"
    using t loop_guard_eval(1,4) by simp
  have b: "execute_parsed_action ''TAP (60,60) # search bar''
       [''TAP(50,50)'', ''TAP(10,10)'', ''TAP(50,50)'']
     = (False, [PerformTap 60 60],
        [''TAP(50,50)'', ''TAP(10,10)'', ''TAP(50,50)'', ''TAP(60,60)''])"
    using t loop_guard_eval(2,5,6,7) by simp
  have c: "execute_parsed_action ''SCROLL down'' [''TAP(50,50)'', ''TAP(10,10)'', ''TAP(50,50)'']
     = (False, [PerformScroll Down], [''TAP(50,50)'', ''TAP(10,10)'', ''TAP(50,50)''])"
    using t loop_guard_eval(3,8) by simp
  from a b c show ?thesis by blast
qed

text \<open>
  A tap with an identity distinct from the repeated one is not always admitted: with
  \<open>TAP(50,50)\<close> and \<open>TAP(60,60)\<close> both twice among the last 4 entries, \<open>TAP (60,60)\<close> is
  replaced by a scroll as well.
\<close>

theorem distinct_tap_counterexample:
  "count_list (last_n 4 [''TAP(50,50)'', ''TAP(50,50)'', ''TAP(60,60)'', ''TAP(60,60)''])
      ''TAP(50,50)'' = 2
   \<and> search_tap (cleaned_action ''TAP (60,60)'') = Some (''60'', ''60'')
   \<and> tap_identity (''60'', ''60'') \<noteq> ''TAP(50,50)''
   \<and> execute_parsed_action ''TAP (60,60)''
        [''TAP(50,50)'', ''TAP(50,50)'', ''TAP(60,60)'', ''TAP(60,60)'']
      = (False, [PerformScroll Down],
         [''TAP(50,50)'', ''TAP(50,50)'', ''TAP(60,60)'', ''TAP(60,60)''])"
  by code_simp

text \<open>
  Claim C10. \<open>execute_parsed_action\<close> returns True exactly when the selected action
  text contains \<open>TASK_COMPLETE\<close> (in any case), no TAP coordinate pattern, no quoted
  TYPE pattern (the pattern of the TYPE dispatch, with both quotes) and no \<open>SCROLL\<close> (in
  any case). The selected text is the first stripped line with an action pattern, or the
  whole stripped input when no line has one. A tap action returns False after the tap, or
  the guard's scroll in its place, was sent; a type action returns False after the text
  input was sent; a scroll action returns False after the scroll was sent.
\<close>

theorem completion_signal:
  "(fst (execute_parsed_action cmd history) \<longleftrightarrow>
     (contains ''TASK_COMPLETE'' (upper (cleaned_action cmd))
      \<and> search_tap (cleaned_action cmd) = None
      \<and> search_type_quoted (cleaned_action cmd) = None
      \<and> \<not> contains ''SCROLL'' (upper (cleaned_action cmd))))
   \<and> (split_lines (strip cmd1) = before @ l # after
        \<and> (\<forall>b\<in>set before. \<not> action_pattern_line (strip b))
        \<and> action_pattern_line (strip l)
       \<longrightarrow> cleaned_action cmd1 = strip l)
   \<and> ((\<forall>l\<in>set (split_lines (strip cmd2)). \<not> action_pattern_line (strip l))
       \<longrightarrow> cleaned_action cmd2 = strip cmd2)
   \<and> (search_tap (cleaned_action cmd3) = Some g
       \<longrightarrow> execute_parsed_action cmd3 history = (False, [PerformScroll Down], history)
           \<or> execute_parsed_action cmd3 history =
               (False, [PerformTap (int_of_digits (fst g)) (int_of_digits (snd g))],
                last_n 10 (history @ [tap_identity g])))
   \<and> (search_tap (cleaned_action cmd4) = None
        \<and> search_type_quoted (cleaned_action cmd4) = Some t
       \<longrightarrow> execute_parsed_action cmd4 history = (False, [PerformTextInput t], history))
   \<and> (search_tap (cleaned_action cmd5) = None
        \<and> search_type_quoted (cleaned_action cmd5) = None
        \<and> contains ''SCROLL'' (upper (cleaned_action cmd5))
       \<longrightarrow> execute_parsed_action cmd5 history =
             (False,
              [PerformScroll (if contains ''up'' (lower (cleaned_action cmd5)) then Up else Down)],
              history))"
proof -
  have first: "split_lines (strip cmd1) = before @ l # after
        \<and> (\<forall>b\<in>set before. \<not> action_pattern_line (strip b))
        \<and> action_pattern_line (strip l)
       \<longrightarrow> cleaned_action cmd1 = strip l"
    using select_action_line_first [of before l after]
    by (auto simp: cleaned_action_def)
  have none: "(\<forall>l\<in>set (split_lines (strip cmd2)). \<not> action_pattern_line (strip l))
       \<longrightarrow> cleaned_action cmd2 = strip cmd2"
    using select_action_line_none [of "split_lines (strip cmd2)"]
    by (auto simp: cleaned_action_def)
  from first none show ?thesis
    using execute_true_iff [of cmd history] execute_tap_false [of cmd3 g history]
      execute_type [of cmd4 t history] execute_scroll [of cmd5 history]
    by blast
qed

text \<open>
  A reply of two lines whose second line is a TYPE action that also mentions the
  completion marker: the text is typed and the return value is False; a line with only
  the marker returns True; a tap and a scroll that mention the marker return False.
\<close>

definition typed_reply :: string where
  "typed_reply = ''I will type now'' @ [newline] @ '' TYPE '' @ [CHR 0x22] @ ''milk''
                   @ [CHR 0x22] @ '' then TASK_COMPLETE''"

definition typed_line :: string where
  "typed_line = ''TYPE '' @ [CHR 0x22] @ ''milk'' @ [CHR 0x22] @ '' then TASK_COMPLETE''"

lemma completion_signal_eval:
  "split_lines (strip typed_reply)
     = [''I will type now''] @ ('' TYPE '' @ [CHR 0x22] @ ''milk'' @ [CHR 0x22]
          @ '' then TASK_COMPLETE'') # []"
  "\<not> action_pattern_line (strip ''I will type now'')"
  "action_pattern_line (strip ('' TYPE '' @ [CHR 0x22] @ ''milk'' @ [CHR 0x22]
          @ '' then TASK_COMPLETE''))"
  "strip ('' TYPE '' @ [CHR 0x22] @ ''milk'' @ [CHR 0x22] @ '' then TASK_COMPLETE'')
     = typed_line"
  "search_tap typed_line = None"
  "search_type_quoted typed_line = Some ''milk''"
  "contains ''TASK_COMPLETE'' (upper typed_line)"
  "cleaned_action ''task_complete: done'' = ''task_complete: done''"
  "contains ''TASK_COMPLETE'' (upper ''task_complete: done'')"
  "search_tap ''task_complete: done'' = None"
  "search_type_quoted ''task_complete: done'' = None"
  "\<not> contains ''SCROLL'' (upper ''task_complete: done'')"
  "split_lines (strip ''no action here'') = [''no action here'']"
  "\<not> action_pattern_line (strip ''no action here'')"
  "strip ''no action here'' = ''no action here''"
  "search_tap (cleaned_action ''TAP (5,6) # TASK_COMPLETE'') = Some (''5'', ''6'')"
  "search_tap (cleaned_action ''scroll up # TASK_COMPLETE'') = None"
  "search_type_quoted (cleaned_action ''scroll up # TASK_COMPLETE'') = None"
  "contains ''SCROLL'' (upper (cleaned_action ''scroll up # TASK_COMPLETE''))"
  "contains ''up'' (lower (cleaned_action ''scroll up # TASK_COMPLETE''))"
  "count_list (last_n 4 []) (tap_identity (''5'', ''6'')) = 0"
  "int_of_digits ''5'' = 5" "int_of_digits ''6'' = 6"
  "last_n 10 ([] @ [tap_identity (''5'', ''6'')]) = [''TAP(5,6)'']"
  by code_simp+

theorem completion_signal_witness:
  "cleaned_action typed_reply = typed_line
   \<and> execute_parsed_action typed_reply [] = (False, [PerformTextInput ''milk''], [])
   \<and> fst (execute_parsed_action ''task_complete: done'' [])
   \<and> cleaned_action ''no action here'' = ''no action here''
   \<and> execute_parsed_action ''TAP (5,6) # TASK_COMPLETE'' []
       = (False, [PerformTap 5 6], [''TAP(5,6)''])
   \<and> execute_parsed_action ''scroll up # TASK_COMPLETE'' [] = (False, [PerformScroll Up], [])"
proof -
  note t = completion_signal
    [where cmd = "''task_complete: done''" and history = "[]" and ?cmd1.0 = typed_reply
       and before = "[''I will type now'']"
       and l = "'' TYPE '' @ [CHR 0x22] @ ''milk'' @ [CHR 0x22] @ '' then TASK_COMPLETE''"
       and after = "[]" and ?cmd2.0 = "''no action here''"
       and ?cmd3.0 = "''TAP (5,6) # TASK_COMPLETE''" and g = "(''5'', ''6'')"
       and ?cmd4.0 = typed_reply and t = "''milk''"
       and ?cmd5.0 = "''scroll up # TASK_COMPLETE''"]
  have lines: "\<forall>b\<in>set [''I will type now'']. \<not> action_pattern_line (strip b)"
    using completion_signal_eval(2) by simp
  from t completion_signal_eval(1,3) lines
  have "cleaned_action typed_reply
          = strip ('' TYPE '' @ [CHR 0x22] @ ''milk'' @ [CHR 0x22] @ '' then TASK_COMPLETE'')"
    by blast
  then have c1: "cleaned_action typed_reply = typed_line"
    by (simp only: completion_signal_eval(4))
  from t c1 completion_signal_eval(5,6)
  have c2: "execute_parsed_action typed_reply [] = (False, [PerformTextInput ''milk''], [])"
    by simp
  from t completion_signal_eval(8,9,10,11,12)
  have c3: "fst (execute_parsed_action ''task_complete: done'' [])"
    by simp
  have "\<forall>l\<in>set (split_lines (strip ''no action here'')). \<not> action_pattern_line (strip l)"
    using completion_signal_eval(13,14) by simp
  with t have "cleaned_action ''no action here'' = strip ''no action here''"
    by blast
  then have c4: "cleaned_action ''no action here'' = ''no action here''"
    by (simp only: completion_signal_eval(15))
  have c5: "execute_parsed_action ''TAP (5,6) # TASK_COMPLETE'' []
       = (False, [PerformTap 5 6], [''TAP(5,6)''])"
    using execute_tap_admitted [OF completion_signal_eval(16)] completion_signal_eval(21,22,23,24)
    by simp
  from t completion_signal_eval(17,18,19,20)
  have c6: "execute_parsed_action ''scroll up # TASK_COMPLETE'' [] = (False, [PerformScroll Up], [])"
    by simp
  from c1 c2 c3 c4 c5 c6 show ?thesis by blast
qed

section \<open>The TAP action string\<close>

lemma trunc_floor: "0 \<le> m \<Longrightarrow> trunc_dyadic m e = \<lfloor>valof m e\<rfloor>"
proof (cases "0 \<le> e")
  case True
  have "\<lfloor>(of_int m :: real) * 2 ^ nat e\<rfloor> = \<lfloor>of_int (m * 2 ^ nat e) :: real\<rfloor>" by simp
  with True show ?thesis by (simp add: trunc_dyadic_def valof_def del: of_int_mult of_int_power)
next
  case False
  assume m: "0 \<le> m"
  have "\<lfloor>(of_int m :: real) / 2 ^ nat (- e)\<rfloor> = \<lfloor>(of_int m :: real) / of_int (2 ^ nat (- e))\<rfloor>"
    by simp
  also have "\<dots> = m div 2 ^ nat (- e)" by (rule floor_divide_of_int_eq)
  finally have f: "\<lfloor>(of_int m :: real) / 2 ^ nat (- e)\<rfloor> = m div 2 ^ nat (- e)" .
  from m have "sgn m * (\<bar>m\<bar> div 2 ^ nat (- e)) = m div 2 ^ nat (- e)"
    by (cases "m = 0") (simp_all add: sgn_if)
  with False f show ?thesis by (simp add: trunc_dyadic_def valof_def)
qed

lemma rstrip_append:
  assumes "p \<noteq> []" "\<not> py_isspace (last p)"
  shows "rstrip (p @ rest) = p @ rstrip rest"
proof -
  from assms have h: "dropWhile py_isspace (rev p) = rev p"
    using rstrip_id [OF assms] by (metis rev_rev_ident rstrip_def rev_swap)
  have "dropWhile py_isspace (rev rest @ rev p) = dropWhile py_isspace (rev rest) @ rev p"
  proof (cases "\<forall>c\<in>set (rev rest). py_isspace c")
    case True
    then have "dropWhile py_isspace (rev rest @ rev p) = dropWhile py_isspace (rev p)"
      by (intro dropWhile_append2) simp
    moreover from True have "dropWhile py_isspace (rev rest) = []" by simp
    ultimately show ?thesis by (simp add: h)
  next
    case False
    then obtain x where "x \<in> set (rev rest)" "\<not> py_isspace x" by blast
    then show ?thesis by (simp add: dropWhile_append1)
  qed
  then show ?thesis by (simp add: rstrip_def)
qed

lemma strip_append:
  assumes "p \<noteq> []" "\<not> py_isspace (hd p)" "\<not> py_isspace (last p)"
  shows "strip (p @ rest) = p @ rstrip rest"
proof -
  from assms have "lstrip (p @ rest) = p @ rest"
    by (intro lstrip_id) simp_all
  with rstrip_append [OF assms(1,3)] show ?thesis by (simp add: strip_def)
qed

lemma format_tap_shape:
  "format_tap x y c = (''TAP ('' @ str_int x @ '','' @ str_int y @ '')'') @ ('' # '' @ c)"
  by (simp add: format_tap_def)

lemma strip_format_tap:
  "strip (format_tap x y c) = (''TAP ('' @ str_int x @ '','' @ str_int y @ '')'') @ rstrip ('' # '' @ c)"
  unfolding format_tap_shape
  by (rule strip_append) (simp_all add: py_isspace_def)

lemma search_tap_strip_format:
  assumes "0 \<le> x" "0 \<le> y"
  shows "search_tap (strip (format_tap x y c)) = Some (str_int x, str_int y)"
proof -
  have "search_tap (''TAP'' @ '' '' @ ''('' @ str_int x @ '','' @ [] @ str_int y @ '')''
          @ rstrip ('' # '' @ c)) = Some (str_int x, str_int y)"
    using str_int_digits [OF assms(1)] str_int_digits [OF assms(2)]
    by (intro search_tap_canonical) (simp_all add: char_classes)
  then show ?thesis by (simp add: strip_format_tap)
qed

lemma search_tap_format:
  assumes "0 \<le> x" "0 \<le> y"
  shows "search_tap (format_tap x y c) = Some (str_int x, str_int y)"
proof -
  have "search_tap (''TAP'' @ '' '' @ ''('' @ str_int x @ '','' @ [] @ str_int y @ '')''
          @ ('' # '' @ c)) = Some (str_int x, str_int y)"
    using str_int_digits [OF assms(1)] str_int_digits [OF assms(2)]
    by (intro search_tap_canonical) (simp_all add: char_classes)
  then show ?thesis by (simp add: format_tap_def)
qed

lemma newline_not_digit: "py_isdigit c \<Longrightarrow> c \<noteq> newline"
  by (auto simp: py_isdigit_def newline_def)

lemma format_tap_newline_free:
  assumes "0 \<le> x" "0 \<le> y" "newline \<notin> set c"
  shows "newline \<notin> set (format_tap x y c)"
  using str_int_digits [OF assms(1)] str_int_digits [OF assms(2)] assms(3) newline_not_digit
  by (auto simp: format_tap_def newline_def)

lemma cleaned_action_format_tap:
  assumes "0 \<le> x" "0 \<le> y" "newline \<notin> set c"
  shows "cleaned_action (format_tap x y c) = strip (format_tap x y c)"
proof -
  from format_tap_newline_free [OF assms] set_strip [of "format_tap x y c"]
  have "newline \<notin> set (strip (format_tap x y c))" by blast
  then have l: "split_lines (strip (format_tap x y c)) = [strip (format_tap x y c)]"
    by (rule split_lines_single)
  have "action_pattern_line (strip (format_tap x y c))"
    by (simp add: action_pattern_line_def search_tap_strip_format [OF assms(1,2)])
  with l show ?thesis by (simp add: cleaned_action_def)
qed

lemma execute_format_tap:
  assumes "0 \<le> x" "0 \<le> y" "newline \<notin> set c"
  shows "execute_parsed_action (format_tap x y c) history = (False, [PerformScroll Down], history)
         \<or> execute_parsed_action (format_tap x y c) history =
             (False, [PerformTap x y],
              last_n 10 (history @ [tap_identity (str_int x, str_int y)]))"
proof -
  have "search_tap (cleaned_action (format_tap x y c)) = Some (str_int x, str_int y)"
    by (simp add: cleaned_action_format_tap [OF assms] search_tap_strip_format [OF assms(1,2)])
  from execute_tap_false [OF this, of history] assms(1,2) show ?thesis
    by (simp add: int_of_digits_str_int)
qed

lemma tap_comment_newline_free: "newline \<notin> set line \<Longrightarrow> newline \<notin> set (tap_comment line)"
proof -
  assume n: "newline \<notin> set line"
  have "set (tl (dropWhile (\<lambda>c. c \<noteq> CHR ''#'') line)) \<subseteq> set line"
    by (metis list.set_sel(2) set_dropWhileD subsetI tl_Nil)
  with n set_strip [of "tl (dropWhile (\<lambda>c. c \<noteq> CHR ''#'') line)"] show ?thesis
    by (auto simp: tap_comment_def newline_def)
qed

lemma line_comment_newline_free:
  assumes "l \<in> set (split_lines s)"
  shows "newline \<notin> set (strip l)" "newline \<notin> set (tap_comment (strip l))"
proof -
  from split_lines_newline_free [OF assms] set_strip [of l]
  show "newline \<notin> set (strip l)" by blast
  then show "newline \<notin> set (tap_comment (strip l))" by (rule tap_comment_newline_free)
qed

section \<open>Scaling of TAP coordinates\<close>

lemma scale_coordinate_floor:
  assumes "float_of_int x = Inr fx" "fmul fx factor = Finite m e" "0 \<le> m"
  shows "scale_coordinate x factor = Inr \<lfloor>valof m e\<rfloor>" "0 \<le> \<lfloor>valof m e\<rfloor>"
proof -
  from assms show "scale_coordinate x factor = Inr \<lfloor>valof m e\<rfloor>"
    by (simp add: scale_coordinate_def trunc_floor)
  from assms(3) have "0 \<le> valof m e" by (simp add: valof_def)
  then show "0 \<le> \<lfloor>valof m e\<rfloor>" by simp
qed

text \<open>
  Claim C1, as the code has it. Let the first line of the stripped reply that is
  neither skipped nor without an action pattern contain a well-formed \<open>TAP (x,y)\<close>, and
  let the double-precision products \<open>x * sw\<close> and \<open>y * sh\<close> be finite and not negative.
  Then the parser returns \<open>TAP (X,Y) # comment\<close> where \<open>X\<close> and \<open>Y\<close> are the floors of
  the two products, and the coordinator, given this action, taps exactly \<open>(X, Y)\<close> (or
  sends the loop guard's scroll): the scaling happens once, in the parser.
\<close>

theorem tap_scaling:
  assumes "split_lines (strip reply) = before @ l # after"
    and "\<forall>b\<in>set before. skipped_line (strip b) \<or> \<not> action_pattern_line (strip b)"
    and "\<not> skipped_line (strip l)"
    and "search_tap (strip l) = Some (dx, dy)"
    and "float_of_int (int_of_digits dx) = Inr fx" and "fmul fx sw = Finite mx ex" and "0 \<le> mx"
    and "float_of_int (int_of_digits dy) = Inr fy" and "fmul fy sh = Finite my ey" and "0 \<le> my"
  shows "extract_action_from_response reply sw sh =
           Inr (Some (format_tap \<lfloor>valof mx ex\<rfloor> \<lfloor>valof my ey\<rfloor> (tap_comment (strip l))))
         \<and> (execute_parsed_action
               (format_tap \<lfloor>valof mx ex\<rfloor> \<lfloor>valof my ey\<rfloor> (tap_comment (strip l))) history
              = (False, [PerformScroll Down], history)
            \<or> execute_parsed_action
               (format_tap \<lfloor>valof mx ex\<rfloor> \<lfloor>valof my ey\<rfloor> (tap_comment (strip l))) history
              = (False, [PerformTap \<lfloor>valof mx ex\<rfloor> \<lfloor>valof my ey\<rfloor>],
                 last_n 10 (history
                   @ [tap_identity (str_int \<lfloor>valof mx ex\<rfloor>, str_int \<lfloor>valof my ey\<rfloor>)])))"
proof -
  let ?X = "\<lfloor>valof mx ex\<rfloor>" and ?Y = "\<lfloor>valof my ey\<rfloor>"
  note sx = scale_coordinate_floor [OF assms(5,6,7)]
  note sy = scale_coordinate_floor [OF assms(8,9,10)]
  have "scan_lines (split_lines (strip reply)) sw sh = scan_lines (l # after) sw sh"
    unfolding assms(1) using assms(2) by (rule scan_lines_skip)
  also have "\<dots> = Some (scaled_tap (dx, dy) sw sh (tap_comment (strip l)))"
    using assms(3,4) by (rule scan_lines_tap)
  also have "scaled_tap (dx, dy) sw sh (tap_comment (strip l))
               = Inr (format_tap ?X ?Y (tap_comment (strip l)))"
    by (simp add: scaled_tap_def sx(1) sy(1))
  finally have parse: "extract_action_from_response reply sw sh =
           Inr (Some (format_tap ?X ?Y (tap_comment (strip l))))"
    by (simp add: extract_action_from_response_def)
  have "l \<in> set (split_lines (strip reply))" by (simp add: assms(1))
  then have "newline \<notin> set (tap_comment (strip l))" by (rule line_comment_newline_free)
  from execute_format_tap [OF sx(2) sy(2) this, of history] parse show ?thesis
    by simp
qed

text \<open>
  \<open>TAP (100,200)\<close> with the scale factors 2.0 and 1.5 gives \<open>TAP (200,300)\<close>, and the
  coordinator taps (200, 300).
\<close>

lemma tap_scaling_eval:
  "split_lines (strip ''TAP (100,200)'') = [] @ ''TAP (100,200)'' # []"
  "\<not> skipped_line (strip ''TAP (100,200)'')"
  "search_tap (strip ''TAP (100,200)'') = Some (''100'', ''200'')"
  "float_of_int (int_of_digits ''100'') = Inr (Finite 100 0)"
  "fmul (Finite 100 0) (Finite 1 1) = Finite 100 1"
  "float_of_int (int_of_digits ''200'') = Inr (Finite 200 0)"
  "fmul (Finite 200 0) (Finite 3 (- 1)) = Finite 600 (- 1)"
  "tap_comment (strip ''TAP (100,200)'') = ''scaled coordinates''"
  "format_tap 200 300 ''scaled coordinates'' = ''TAP (200,300) # scaled coordinates''"
  "execute_parsed_action ''TAP (200,300) # scaled coordinates'' []
     = (False, [PerformTap 200 300], [''TAP(200,300)''])"
  by code_simp+

theorem tap_scaling_witness:
  "extract_action_from_response ''TAP (100,200)'' (Finite 1 1) (Finite 3 (- 1))
     = Inr (Some ''TAP (200,300) # scaled coordinates'')
   \<and> execute_parsed_action ''TAP (200,300) # scaled coordinates'' []
     = (False, [PerformTap 200 300], [''TAP(200,300)''])
   \<and> \<lfloor>valof 100 1\<rfloor> = 200 \<and> \<lfloor>valof 600 (- 1)\<rfloor> = 300"
proof -
  have b: "\<forall>b\<in>set ([] :: string list). skipped_line (strip b) \<or> \<not> action_pattern_line (strip b)"
    by simp
  have v: "\<lfloor>valof 100 1\<rfloor> = 200" "\<lfloor>valof 600 (- 1)\<rfloor> = 300"
    by (simp_all add: valof_def)
  from tap_scaling [OF tap_scaling_eval(1) b tap_scaling_eval(2,3,4,5) _ tap_scaling_eval(6,7),
      of "[]"]
  have "extract_action_from_response ''TAP (100,200)'' (Finite 1 1) (Finite 3 (- 1))
     = Inr (Some (format_tap \<lfloor>valof 100 1\<rfloor> \<lfloor>valof 600 (- 1)\<rfloor>
                    (tap_comment (strip ''TAP (100,200)''))))"
    by simp
  then have "extract_action_from_response ''TAP (100,200)'' (Finite 1 1) (Finite 3 (- 1))
     = Inr (Some ''TAP (200,300) # scaled coordinates'')"
    by (simp only: v tap_scaling_eval(8,9))
  with tap_scaling_eval(10) v show ?thesis by blast
qed

text \<open>
  A reply that contains a well-formed TAP line need not give a TAP action: an earlier
  SCROLL line wins. And with a negative scale factor the coordinate is truncated toward
  zero, which is not the floor.
\<close>

theorem tap_scaling_counterexample:
  "split_lines (strip (''SCROLL down'' @ [newline] @ ''TAP (100,200)''))
     = [''SCROLL down'', ''TAP (100,200)'']
   \<and> extract_action_from_response (''SCROLL down'' @ [newline] @ ''TAP (100,200)'')
        (Finite 1 1) (Finite 3 (- 1))
     = Inr (Some ''SCROLL down'')
   \<and> float_of_int 1 = Inr (Finite 1 0)
   \<and> fmul (Finite 1 0) (Finite (- 1) (- 1)) = Finite (- 1) (- 1)
   \<and> \<lfloor>valof (- 1) (- 1)\<rfloor> = - 1
   \<and> extract_action_from_response ''TAP (1,1)'' (Finite (- 1) (- 1)) float_one
     = Inr (Some ''TAP (0,1) # scaled coordinates'')"
proof -
  have "\<lfloor>valof (- 1) (- 1)\<rfloor> = - 1" by (simp add: valof_def)
  moreover have
    "split_lines (strip (''SCROLL down'' @ [newline] @ ''TAP (100,200)''))
       = [''SCROLL down'', ''TAP (100,200)'']"
    "extract_action_from_response (''SCROLL down'' @ [newline] @ ''TAP (100,200)'')
        (Finite 1 1) (Finite 3 (- 1))
     = Inr (Some ''SCROLL down'')"
    "float_of_int 1 = Inr (Finite 1 0)"
    "fmul (Finite 1 0) (Finite (- 1) (- 1)) = Finite (- 1) (- 1)"
    "extract_action_from_response ''TAP (1,1)'' (Finite (- 1) (- 1)) float_one
     = Inr (Some ''TAP (0,1) # scaled coordinates'')"
    by code_simp+
  ultimately show ?thesis by blast
qed

section \<open>The scan of the parser\<close>

lemma tap_comment_after_hash:
  assumes "line = pre @ CHR ''#'' # post" "CHR ''#'' \<notin> set pre"
  shows "tap_comment line = strip post"
proof -
  from assms(2) have "dropWhile (\<lambda>c. c \<noteq> CHR ''#'') (pre @ CHR ''#'' # post)
      = dropWhile (\<lambda>c. c \<noteq> CHR ''#'') (CHR ''#'' # post)"
    by (intro dropWhile_append2) auto
  then have "dropWhile (\<lambda>c. c \<noteq> CHR ''#'') (pre @ CHR ''#'' # post) = CHR ''#'' # post"
    by simp
  with assms(1) show ?thesis by (simp add: tap_comment_def)
qed

lemma scaled_tap_rebuilt:
  "scaled_tap g sw sh c = Inr a \<Longrightarrow> \<exists>x y. a = format_tap x y c"
  by (auto simp: scaled_tap_def split: sum.splits)

lemma extract_first_tap:
  assumes "split_lines (strip reply) = before @ l # after"
    and "\<forall>b\<in>set before. skipped_line (strip b) \<or> \<not> action_pattern_line (strip b)"
    and "\<not> skipped_line (strip l)" and "search_tap (strip l) = Some g"
  shows "extract_action_from_response reply sw sh =
           (case scaled_tap g sw sh (tap_comment (strip l)) of
              Inl err \<Rightarrow> Inl err
            | Inr a \<Rightarrow> Inr (Some a))"
proof -
  have "scan_lines (split_lines (strip reply)) sw sh = scan_lines (l # after) sw sh"
    unfolding assms(1) using assms(2) by (rule scan_lines_skip)
  also have "\<dots> = Some (scaled_tap g sw sh (tap_comment (strip l)))"
    using assms(3,4) by (rule scan_lines_tap)
  finally show ?thesis
    by (simp add: extract_action_from_response_def split: sum.splits)
qed

lemma extract_first_other:
  assumes "split_lines (strip reply) = before @ l # after"
    and "\<forall>b\<in>set before. skipped_line (strip b) \<or> \<not> action_pattern_line (strip b)"
    and "\<not> skipped_line (strip l)" and "search_tap (strip l) = None"
    and "action_pattern_line (strip l)"
  shows "extract_action_from_response reply sw sh = Inr (Some (strip l))"
proof -
  have "scan_lines (split_lines (strip reply)) sw sh = scan_lines (l # after) sw sh"
    unfolding assms(1) using assms(2) by (rule scan_lines_skip)
  also have "\<dots> = Some (Inr (strip l))"
    using assms(3,4,5) by (rule scan_lines_other)
  finally show ?thesis
    by (simp add: extract_action_from_response_def)
qed

lemma extract_no_line:
  assumes "\<forall>l\<in>set (split_lines (strip reply)). skipped_line (strip l) \<or> \<not> action_pattern_line (strip l)"
  shows "extract_action_from_response reply sw sh = parse_full_response (strip reply) sw sh"
  using assms scan_lines_None [of "split_lines (strip reply)" sw sh]
  by (simp add: extract_action_from_response_def)

text \<open>
  Claim C5, as the code has it. The stripped reply is split into lines and the stripped
  lines are scanned in order; lines that are skipped (blank, or starting with \<open>#\<close> or a
  code fence) or have no action pattern are passed over. At the first other line the
  parser returns: for a line with a TAP pattern, the rebuilt string \<open>TAP (x,y) # comment\<close>
  with the scaled coordinates, the comment being the stripped text after the first \<open>#\<close> of
  the line, or \<open>scaled coordinates\<close> when the line has none; for a line with another
  pattern, the stripped line itself, unchanged. Lines after it play no role, so a TAP line
  before a SCROLL line gives the TAP action. When no line is returned, the stripped full
  text is searched in the order TAP, TYPE with both quotes, SCROLL, TASK\_COMPLETE, and
  the result is a rebuilt string or \<open>None\<close>.
\<close>

theorem parser_scan:
  "(split_lines (strip reply) = before @ l # after
      \<and> (\<forall>b\<in>set before. skipped_line (strip b) \<or> \<not> action_pattern_line (strip b))
      \<and> \<not> skipped_line (strip l) \<and> search_tap (strip l) = Some g
     \<longrightarrow> extract_action_from_response reply sw sh =
           (case scaled_tap g sw sh (tap_comment (strip l)) of
              Inl err \<Rightarrow> Inl err
            | Inr a \<Rightarrow> Inr (Some a)))
   \<and> (scaled_tap g sw sh c = Inr a \<longrightarrow> (\<exists>x y. a = format_tap x y c))
   \<and> (line = pre @ CHR ''#'' # post \<and> CHR ''#'' \<notin> set pre \<longrightarrow> tap_comment line = strip post)
   \<and> (CHR ''#'' \<notin> set line1 \<longrightarrow> tap_comment line1 = ''scaled coordinates'')
   \<and> (split_lines (strip reply1) = before1 @ l1 # after1
      \<and> (\<forall>b\<in>set before1. skipped_line (strip b) \<or> \<not> action_pattern_line (strip b))
      \<and> \<not> skipped_line (strip l1) \<and> search_tap (strip l1) = None
      \<and> action_pattern_line (strip l1)
     \<longrightarrow> extract_action_from_response reply1 sw sh = Inr (Some (strip l1)))
   \<and> ((\<forall>l\<in>set (split_lines (strip reply2)).
          skipped_line (strip l) \<or> \<not> action_pattern_line (strip l))
     \<longrightarrow> extract_action_from_response reply2 sw sh = parse_full_response (strip reply2) sw sh)
   \<and> (search_tap full = Some g2
     \<longrightarrow> parse_full_response full sw sh =
           (case scaled_tap g2 sw sh ''extracted and scaled'' of
              Inl err \<Rightarrow> Inl err
            | Inr a \<Rightarrow> Inr (Some a)))
   \<and> (search_tap full1 = None \<and> search_type_quoted full1 = Some q
     \<longrightarrow> parse_full_response full1 sw sh =
           Inr (Some (''TYPE '' @ [CHR 0x27] @ q @ [CHR 0x27] @ '' # extracted action'')))
   \<and> (search_tap full2 = None \<and> search_type_quoted full2 = None
     \<longrightarrow> parse_full_response full2 sw sh =
           (if contains ''SCROLL'' (upper full2) then Inr (Some ''SCROLL down # extracted action'')
            else if contains ''TASK_COMPLETE'' (upper full2)
            then Inr (Some ''TASK_COMPLETE: extracted from response'')
            else Inr None))"
proof -
  have full: "search_tap full = Some g2
     \<longrightarrow> parse_full_response full sw sh =
           (case scaled_tap g2 sw sh ''extracted and scaled'' of
              Inl err \<Rightarrow> Inl err
            | Inr a \<Rightarrow> Inr (Some a))"
    by (simp add: parse_full_response_def)
  have full1: "search_tap full1 = None \<and> search_type_quoted full1 = Some q
     \<longrightarrow> parse_full_response full1 sw sh =
           Inr (Some (''TYPE '' @ [CHR 0x27] @ q @ [CHR 0x27] @ '' # extracted action''))"
    by (simp add: parse_full_response_def)
  have full2: "search_tap full2 = None \<and> search_type_quoted full2 = None
     \<longrightarrow> parse_full_response full2 sw sh =
           (if contains ''SCROLL'' (upper full2) then Inr (Some ''SCROLL down # extracted action'')
            else if contains ''TASK_COMPLETE'' (upper full2)
            then Inr (Some ''TASK_COMPLETE: extracted from response'')
            else Inr None)"
    by (simp add: parse_full_response_def)
  have nohash: "CHR ''#'' \<notin> set line1 \<longrightarrow> tap_comment line1 = ''scaled coordinates''"
    by (simp add: tap_comment_def)
  from full full1 full2 nohash show ?thesis
    using extract_first_tap [of reply before l after g sw sh]
      scaled_tap_rebuilt [of g sw sh c a]
      tap_comment_after_hash [of line pre post]
      extract_first_other [of reply1 before1 l1 after1 sw sh]
      extract_no_line [of reply2 sw sh]
    by blast
qed

text \<open>
  A reply in a code fence with a TAP line before a SCROLL line gives the scaled TAP
  action with the comment of the line; a lower-case scroll line after a \<open>#\<close> line is
  returned as it is; a reply that is only a \<open>#\<close> line is searched as a whole.
\<close>

definition fenced_reply :: string where
  "fenced_reply = ''Sure!'' @ [newline] @ code_fence @ [newline]
     @ ''  TAP (100,200) # search icon '' @ [newline] @ ''SCROLL down'' @ [newline] @ code_fence"

lemma parser_scan_eval:
  "split_lines (strip fenced_reply)
     = [''Sure!'', code_fence] @ ''  TAP (100,200) # search icon '' # [''SCROLL down'', code_fence]"
  "\<not> action_pattern_line (strip ''Sure!'')"
  "skipped_line (strip code_fence)"
  "\<not> skipped_line (strip ''  TAP (100,200) # search icon '')"
  "search_tap (strip ''  TAP (100,200) # search icon '') = Some (''100'', ''200'')"
  "scaled_tap (''100'', ''200'') (Finite 1 1) (Finite 3 (- 1))
      (tap_comment (strip ''  TAP (100,200) # search icon ''))
     = Inr ''TAP (200,300) # search icon''"
  "split_lines (strip (''# note'' @ [newline] @ ''scroll down please''))
     = [''# note''] @ ''scroll down please'' # []"
  "skipped_line (strip ''# note'')"
  "\<not> skipped_line (strip ''scroll down please'')"
  "search_tap (strip ''scroll down please'') = None"
  "action_pattern_line (strip ''scroll down please'')"
  "strip ''scroll down please'' = ''scroll down please''"
  "split_lines (strip ''# TAP (5,6)'') = [''# TAP (5,6)'']"
  "strip ''# TAP (5,6)'' = ''# TAP (5,6)''"
  "search_tap ''# TAP (5,6)'' = Some (''5'', ''6'')"
  "scaled_tap (''5'', ''6'') (Finite 1 1) (Finite 3 (- 1)) ''extracted and scaled''
     = Inr ''TAP (10,9) # extracted and scaled''"
  by code_simp+

theorem parser_scan_witness:
  "extract_action_from_response fenced_reply (Finite 1 1) (Finite 3 (- 1))
     = Inr (Some ''TAP (200,300) # search icon'')
   \<and> extract_action_from_response (''# note'' @ [newline] @ ''scroll down please'')
        (Finite 1 1) (Finite 3 (- 1))
     = Inr (Some ''scroll down please'')
   \<and> extract_action_from_response ''# TAP (5,6)'' (Finite 1 1) (Finite 3 (- 1))
     = Inr (Some ''TAP (10,9) # extracted and scaled'')"
proof -
  note t = parser_scan
    [where reply = fenced_reply and before = "[''Sure!'', code_fence]"
       and l = "''  TAP (100,200) # search icon ''" and after = "[''SCROLL down'', code_fence]"
       and g = "(''100'', ''200'')" and sw = "Finite 1 1" and sh = "Finite 3 (- 1)"
       and ?reply1.0 = "''# note'' @ [newline] @ ''scroll down please''"
       and ?before1.0 = "[''# note'']" and ?l1.0 = "''scroll down please''" and ?after1.0 = "[]"
       and ?reply2.0 = "''# TAP (5,6)''" and full = "''# TAP (5,6)''" and ?g2.0 = "(''5'', ''6'')"]
  note a1 = t [THEN conjunct1]
  note a5 = t [THEN conjunct2, THEN conjunct2, THEN conjunct2, THEN conjunct2, THEN conjunct1]
  note a6 = t [THEN conjunct2, THEN conjunct2, THEN conjunct2, THEN conjunct2, THEN conjunct2,
      THEN conjunct1]
  note a7 = t [THEN conjunct2, THEN conjunct2, THEN conjunct2, THEN conjunct2, THEN conjunct2,
      THEN conjunct2, THEN conjunct1]
  have b: "\<forall>b\<in>set [''Sure!'', code_fence].
             skipped_line (strip b) \<or> \<not> action_pattern_line (strip b)"
    using parser_scan_eval(2,3) by simp
  from a1 [THEN mp, OF conjI [OF parser_scan_eval(1) conjI [OF b conjI [OF parser_scan_eval(4,5)]]]]
  have w1: "extract_action_from_response fenced_reply (Finite 1 1) (Finite 3 (- 1))
     = Inr (Some ''TAP (200,300) # search icon'')"
    by (simp only: parser_scan_eval(6) sum.case)
  have b1: "\<forall>b\<in>set [''# note''].
             skipped_line (strip b) \<or> \<not> action_pattern_line (strip b)"
    using parser_scan_eval(8) by simp
  from a5 [THEN mp, OF conjI [OF parser_scan_eval(7) conjI [OF b1 conjI [OF parser_scan_eval(9)
      conjI [OF parser_scan_eval(10,11)]]]]]
  have w2: "extract_action_from_response (''# note'' @ [newline] @ ''scroll down please'')
        (Finite 1 1) (Finite 3 (- 1)) = Inr (Some ''scroll down please'')"
    by (simp only: parser_scan_eval(12))
  have b2: "\<forall>l\<in>set (split_lines (strip ''# TAP (5,6)'')).
               skipped_line (strip l) \<or> \<not> action_pattern_line (strip l)"
    unfolding parser_scan_eval(13) using parser_scan_eval(14)
    by (simp add: skipped_line_def)
  from a6 [THEN mp, OF b2]
  have "extract_action_from_response ''# TAP (5,6)'' (Finite 1 1) (Finite 3 (- 1))
          = parse_full_response ''# TAP (5,6)'' (Finite 1 1) (Finite 3 (- 1))"
    by (simp only: parser_scan_eval(14))
  also from a7 [THEN mp, OF parser_scan_eval(15)]
  have "parse_full_response ''# TAP (5,6)'' (Finite 1 1) (Finite 3 (- 1)) =
           Inr (Some ''TAP (10,9) # extracted and scaled'')"
    by (simp only: parser_scan_eval(16) sum.case)
  finally have w3: "extract_action_from_response ''# TAP (5,6)'' (Finite 1 1) (Finite 3 (- 1))
     = Inr (Some ''TAP (10,9) # extracted and scaled'')" .
  from w1 w2 w3 show ?thesis by (intro conjI)
qed

text \<open>
  The matched line is not always preserved: text around the TAP pattern is dropped. A
  line without a comment gets a default comment only when it is a TAP line. And the scan
  of the full text is not the scan of the lines: an opening quote after TYPE is a pattern
  for a line, but the full text needs the closing quote too.
\<close>

theorem parser_scan_counterexample:
  "extract_action_from_response ''Now TAP (1,2) please'' float_one float_one
     = Inr (Some ''TAP (1,2) # scaled coordinates'')
   \<and> extract_action_from_response ''SCROLL down'' float_one float_one
     = Inr (Some ''SCROLL down'')
   \<and> search_type_open (''# TYPE '' @ [CHR 0x27] @ ''abc'')
   \<and> extract_action_from_response (''# TYPE '' @ [CHR 0x27] @ ''abc'') float_one float_one
     = Inr None"
  by code_simp


end
